theory Spec2Isabelle
  imports Main "HOL-Library.Sublist"
begin

section \<open>Values, objects and the store\<close>

text \<open>
  The client handles caller-supplied data of type \<open>Record<string, unknown>\<close>. An object is
  identified by its address in a store; its own enumerable properties are an association
  list in property order. A value is either a primitive or a reference to an object, so
  that two properties can hold the same object and an object can (indirectly) hold itself.
  Arrays are objects whose keys are their indices, which is how \<open>{...obj}\<close> and
  \<open>Object.keys\<close> see them. The scrubber copies primitives as they are, so that a number
  is only a label here (an integer). Strings are lists of characters.
\<close>

type_synonym addr = nat

datatype prim = PStr string | PNum int | PBool bool | PNull | PUndef | PBigInt int

datatype jsval = Prim prim | Ref addr

type_synonym obj = "(string \<times> jsval) list"

type_synonym heap = "obj list"

text \<open>
  What the scrubber builds: fresh objects only, whose properties hold primitives or
  other fresh objects. The result never refers back into the caller's store.
\<close>

datatype scrubbed = Leaf prim | Node "(string \<times> scrubbed) list"

definition entries :: "heap \<Rightarrow> addr \<Rightarrow> obj" where
  "entries h a = (if a < length h then h ! a else [])"

text \<open>
  \<open>String.prototype.toLowerCase\<close> follows the Unicode case mapping. The model has its
  ASCII part only, which folds \<open>A\<close> to \<open>Z\<close> and leaves every other character as it is. The
  two agree on strings of ASCII characters, and not beyond (the Kelvin sign U+212A has
  the lower case \<open>k\<close>). The statements below that depend on the letter case of keys and
  fields are therefore made for ASCII keys and fields, a condition written \<open>ascii\<close> for
  a string and \<open>ascii_store\<close> for the keys of all objects of a store.
\<close>

definition ascii :: "string \<Rightarrow> bool" where
  "ascii s = list_all (\<lambda>c. of_char c < (128 :: nat)) s"

definition ascii_store :: "heap \<Rightarrow> bool" where
  "ascii_store h = list_all (list_all (\<lambda>(k, v). ascii k)) h"

definition lower_char :: "char \<Rightarrow> char" where
  "lower_char c =
     (case map_of (zip ''ABCDEFGHIJKLMNOPQRSTUVWXYZ'' ''abcdefghijklmnopqrstuvwxyz'') c of
        Some l \<Rightarrow> l
      | None \<Rightarrow> c)"

definition toLowerCase :: "string \<Rightarrow> string" where
  "toLowerCase s = map lower_char s"

text \<open>\<open>parseInt(digits, 10)\<close> on a text made of decimal digits.\<close>

definition is_digit :: "char \<Rightarrow> bool" where
  "is_digit c = (c \<in> set ''0123456789'')"

definition digit_value :: "char \<Rightarrow> nat" where
  "digit_value c =
     (case map_of (zip ''0123456789'' [0, 1, 2, 3, 4, 5, 6, 7, 8, 9]) c of
        Some d \<Rightarrow> d
      | None \<Rightarrow> 0)"

definition parseInt :: "string \<Rightarrow> nat" where
  "parseInt s = foldl (\<lambda>n c. 10 * n + digit_value c) 0 s"

text \<open>
  The own properties of an object are listed in property order: first the keys that are
  array indices (the decimal text, without a leading zero, of an integer below
  \<open>2\<^sup>3\<^sup>2 - 1\<close>) by ascending value, then the other keys in the order in which they were
  created. \<open>assign\<close> defines the property \<open>k\<close> with value \<open>v\<close>, as a spread or an object
  literal does: an existing key keeps its place and takes the new value, a new key
  goes to its place in that order.
\<close>

definition is_array_index :: "string \<Rightarrow> bool" where
  "is_array_index k =
     (k \<noteq> [] \<and> list_all is_digit k \<and> (k = ''0'' \<or> hd k \<noteq> CHR ''0'') \<and>
      parseInt k < 4294967295)"

fun replace_value :: "string \<Rightarrow> 'v \<Rightarrow> (string \<times> 'v) list \<Rightarrow> (string \<times> 'v) list" where
  "replace_value k v [] = []"
| "replace_value k v ((k', v') # kvs) =
     (if k = k' then (k, v) # kvs else (k', v') # replace_value k v kvs)"

fun insert_index :: "string \<Rightarrow> 'v \<Rightarrow> (string \<times> 'v) list \<Rightarrow> (string \<times> 'v) list" where
  "insert_index k v [] = [(k, v)]"
| "insert_index k v ((k', v') # kvs) =
     (if is_array_index k' \<and> parseInt k' < parseInt k then (k', v') # insert_index k v kvs
      else (k, v) # (k', v') # kvs)"

definition assign :: "string \<Rightarrow> 'v \<Rightarrow> (string \<times> 'v) list \<Rightarrow> (string \<times> 'v) list" where
  "assign k v kvs =
     (if k \<in> set (map fst kvs) then replace_value k v kvs
      else if is_array_index k then insert_index k v kvs
      else kvs @ [(k, v)])"

text \<open>
  \<open>obj[k] = v\<close> for a string \<open>v\<close> on an object made by \<open>{}\<close>. The key \<open>__proto__\<close> is the one
  key under which \<open>Object.prototype\<close> has a setter; the setter ignores a value that is
  not an object, so that the assignment stores nothing. Under any other key the
  property is defined.
\<close>

definition set_property :: "string \<Rightarrow> string \<Rightarrow> (string \<times> string) list \<Rightarrow> (string \<times> string) list"
where
  "set_property k v obj = (if k = ''__proto__'' then obj else assign k v obj)"

text \<open>\<open>{...xs, ...ys}\<close>: the properties of \<open>ys\<close> are defined on a copy of \<open>xs\<close>.\<close>

definition spread :: "(string \<times> 'v) list \<Rightarrow> (string \<times> 'v) list \<Rightarrow> (string \<times> 'v) list" where
  "spread xs ys = fold (\<lambda>(k, v) acc. assign k v acc) ys xs"

section \<open>The sensitive data scrubber (client.ts)\<close>

definition DEFAULT_SCRUB_HEADERS :: "string list" where
  "DEFAULT_SCRUB_HEADERS =
     [''authorization'', ''cookie'', ''set-cookie'', ''x-api-key'', ''x-auth-token'']"

definition DEFAULT_SCRUB_FIELDS :: "string list" where
  "DEFAULT_SCRUB_FIELDS =
     [''password'', ''secret'', ''token'', ''accessToken'', ''access_token'', ''apiKey'',
      ''api_key'', ''credential'']"

definition SCRUBBED :: string where
  "SCRUBBED = ''[SCRUBBED]''"

definition CIRCULAR :: string where
  "CIRCULAR = ''[Circular Reference]''"

text \<open>\<open>lowerFields.includes(key.toLowerCase())\<close>\<close>

definition sensitive :: "string list \<Rightarrow> string \<Rightarrow> bool" where
  "sensitive scrubFields key = (toLowerCase key \<in> set (map toLowerCase scrubFields))"

text \<open>
  \<open>scrubObject\<close> with its \<open>for (const key of Object.keys(result))\<close> loop as
  \<open>scrubEntries\<close>. The \<open>WeakSet\<close> of visited objects is mutated by the source and shared
  by all recursive calls, so it is passed in and returned. Nothing is ever removed
  from it.
\<close>

function scrubObject :: "heap \<Rightarrow> string list \<Rightarrow> addr set \<Rightarrow> addr \<Rightarrow> scrubbed \<times> addr set"
  and scrubEntries ::
    "heap \<Rightarrow> string list \<Rightarrow> addr set \<Rightarrow> obj \<Rightarrow> (string \<times> scrubbed) list \<times> addr set"
where
  "scrubObject h scrubFields visited a =
     (if a \<in> visited then (Leaf (PStr CIRCULAR), visited)
      else (case scrubEntries h scrubFields (insert a visited) (entries h a) of
              (res, visited') \<Rightarrow> (Node res, visited')))"
| "scrubEntries h scrubFields visited [] = ([], visited)"
| "scrubEntries h scrubFields visited ((key, v) # rest) =
     (case (if sensitive scrubFields key then (Leaf (PStr SCRUBBED), visited)
            else (case v of
                    Prim p \<Rightarrow> (Leaf p, visited)
                  | Ref b \<Rightarrow> if b \<in> visited then (Leaf (PStr CIRCULAR), visited)
                             else scrubObject h scrubFields visited b)) of
        (r, visited1) \<Rightarrow>
          (case scrubEntries h scrubFields visited1 rest of
             (res, visited2) \<Rightarrow> ((key, r) # res, visited2)))"
  by pat_completeness auto

text \<open>
  Termination. A recursive call on the rest of the loop runs with the visited set left
  by the calls before it, so the proof first needs that the set only grows, on the
  domain of the function.
\<close>

lemma visited_mono_dom:
  "scrubObject_scrubEntries_dom (Inl (h, fs, visited, a)) \<Longrightarrow>
     visited \<subseteq> snd (scrubObject h fs visited a)"
  "scrubObject_scrubEntries_dom (Inr (h, fs, visited, es)) \<Longrightarrow>
     visited \<subseteq> snd (scrubEntries h fs visited es)"
proof (induct h fs visited a and h fs visited es rule: scrubObject_scrubEntries.pinduct)
  case (1 h fs visited a)
  then show ?case
    by (auto simp: scrubObject.psimps split: prod.splits)
next
  case (2 h fs visited)
  then show ?case by (simp add: scrubEntries.psimps)
next
  case (3 h fs visited key v rest)
  define body where "body =
       (if sensitive fs key then (Leaf (PStr SCRUBBED), visited)
        else (case v of
                Prim p \<Rightarrow> (Leaf p, visited)
              | Ref b \<Rightarrow> if b \<in> visited then (Leaf (PStr CIRCULAR), visited)
                         else scrubObject h fs visited b))"
  obtain r visited1 where step: "(r, visited1) = body"
    by (cases body) simp
  have "visited \<subseteq> visited1"
  proof (cases "sensitive fs key")
    case True
    with step show ?thesis by (simp add: body_def)
  next
    case False
    show ?thesis
    proof (cases v)
      case (Prim p)
      with step False show ?thesis by (simp add: body_def)
    next
      case (Ref b)
      show ?thesis
      proof (cases "b \<in> visited")
        case True
        with step False Ref show ?thesis by (simp add: body_def)
      next
        case nv: False
        from step False Ref nv have "scrubObject h fs visited b = (r, visited1)"
          by (simp add: body_def)
        with "3.hyps"(2) [OF False Ref nv] show ?thesis by simp
      qed
    qed
  qed
  moreover have "visited1 \<subseteq> snd (scrubEntries h fs visited1 rest)"
    using "3.hyps"(3) [OF step [unfolded body_def]] .
  moreover have "snd (scrubEntries h fs visited ((key, v) # rest)) =
      snd (scrubEntries h fs visited1 rest)"
    by (subst scrubEntries.psimps(2) [OF "3.hyps"(1)], fold body_def, subst step [symmetric])
       (simp split: prod.splits)
  ultimately show ?case by simp
qed

lemma unvisited_insert:
  "a < n \<Longrightarrow> a \<notin> visited \<Longrightarrow>
     card ({..<n::nat} - insert a visited) < card ({..<n} - visited)"
  by (rule psubset_card_mono) auto

lemma unvisited_mono:
  "visited \<subseteq> visited' \<Longrightarrow> card ({..<n} - visited') \<le> card ({..<n::nat} - visited)"
  by (rule card_mono) auto

termination scrubObject
proof (relation "inv_image (less_than <*lex*> less_than)
     (\<lambda>x. case x of
        Inl (h, fs, visited, a) \<Rightarrow> (card ({..<length h} - visited) + 1, 0)
      | Inr (h, fs, visited, es) \<Rightarrow>
          (if es = [] then 0 else card ({..<length h} - visited) + 1, length es))",
    goal_cases)
  case 1
  show ?case by (intro wf_inv_image wf_lex_prod wf_less_than)
next
  case (2 h fs visited a)
  then show ?case
    using unvisited_insert [of a "length h" visited]
    by (auto simp: entries_def)
next
  case (3 h fs visited key v rest b)
  then show ?case by simp
next
  case (4 h fs visited key v rest r visited1)
  have "visited \<subseteq> visited1"
  proof (cases "sensitive fs key")
    case True
    with 4 show ?thesis by simp
  next
    case False
    show ?thesis
    proof (cases v)
      case (Prim p)
      with 4 False show ?thesis by simp
    next
      case (Ref b)
      show ?thesis
      proof (cases "b \<in> visited")
        case True
        with 4 False Ref show ?thesis by simp
      next
        case nv: False
        from 4(1) False Ref nv have eq: "scrubObject h fs visited b = (r, visited1)"
          by simp
        from 4(2) [OF False Ref nv]
        have "scrubObject_scrubEntries_dom (Inl (h, fs, visited, b))" .
        from visited_mono_dom(1) [OF this] eq show ?thesis by simp
      qed
    qed
  qed
  from unvisited_mono [OF this, of "length h"] show ?case
    by auto
qed

declare scrubObject.simps [simp del] scrubEntries.simps [simp del]

text \<open>One pass of the loop body: the new value for \<open>key\<close> and the visited set after it.\<close>

definition loop_body :: "heap \<Rightarrow> string list \<Rightarrow> addr set \<Rightarrow> string \<Rightarrow> jsval \<Rightarrow> scrubbed \<times> addr set"
where
  "loop_body h scrubFields visited key v =
     (if sensitive scrubFields key then (Leaf (PStr SCRUBBED), visited)
      else (case v of
              Prim p \<Rightarrow> (Leaf p, visited)
            | Ref b \<Rightarrow> if b \<in> visited then (Leaf (PStr CIRCULAR), visited)
                       else scrubObject h scrubFields visited b))"

text \<open>
  \<open>verbatim h t v\<close>: the tree \<open>t\<close> is an unchanged copy of the value \<open>v\<close> of store \<open>h\<close>,
  property by property.
\<close>

fun verbatim :: "heap \<Rightarrow> scrubbed \<Rightarrow> jsval \<Rightarrow> bool"
  and verbatim_entries :: "heap \<Rightarrow> (string \<times> scrubbed) list \<Rightarrow> obj \<Rightarrow> bool"
where
  "verbatim h (Leaf p) v = (v = Prim p)"
| "verbatim h (Node res) v =
     (case v of Prim p \<Rightarrow> False | Ref b \<Rightarrow> b < length h \<and> verbatim_entries h res (h ! b))"
| "verbatim_entries h [] es = (es = [])"
| "verbatim_entries h ((k, t) # res) es =
     (case es of [] \<Rightarrow> False
      | (k', v) # es' \<Rightarrow> k = k' \<and> verbatim h t v \<and> verbatim_entries h res es')"


text \<open>
  Objects reachable from \<open>a\<close> along properties whose key is not sensitive.
\<close>

inductive reach :: "heap \<Rightarrow> string list \<Rightarrow> addr \<Rightarrow> addr \<Rightarrow> bool" for h fs where
  reach_self: "reach h fs a a"
| reach_edge: "(k, Ref b) \<in> set (entries h a) \<Longrightarrow> \<not> sensitive fs k \<Longrightarrow> reach h fs b c \<Longrightarrow>
     reach h fs a c"

text \<open>
  The same, through objects that are not in \<open>visited\<close>: \<open>c\<close> can be reached from \<open>a\<close> along
  properties whose key is not sensitive, and neither \<open>a\<close>, nor \<open>c\<close>, nor any object on the
  way is in \<open>visited\<close>.
\<close>

inductive outside :: "heap \<Rightarrow> string list \<Rightarrow> addr set \<Rightarrow> addr \<Rightarrow> addr \<Rightarrow> bool"
  for h fs visited where
  outside_self: "a \<notin> visited \<Longrightarrow> outside h fs visited a a"
| outside_edge: "a \<notin> visited \<Longrightarrow> (k, Ref b) \<in> set (entries h a) \<Longrightarrow> \<not> sensitive fs k \<Longrightarrow>
     outside h fs visited b c \<Longrightarrow> outside h fs visited a c"

text \<open>
  The objects that have been visited once the loop has gone through the properties
  \<open>es\<close>, when it started with the set \<open>visited\<close>: those of \<open>visited\<close>, and those that
  can be reached, through objects that are not in \<open>visited\<close>, from a container held
  by one of the properties under a key that is not sensitive.
\<close>

definition visited_after :: "heap \<Rightarrow> string list \<Rightarrow> addr set \<Rightarrow> obj \<Rightarrow> addr set" where
  "visited_after h fs visited es =
     visited \<union> {c. \<exists>k b. (k, Ref b) \<in> set es \<and> \<not> sensitive fs k \<and> outside h fs visited b c}"

section \<open>The header scrubber (client.ts)\<close>

text \<open>\<open>s.includes(f)\<close>: \<open>f\<close> occurs in \<open>s\<close> as a contiguous run.\<close>

fun includes_str :: "string \<Rightarrow> string \<Rightarrow> bool" where
  "includes_str [] f = (f = [])"
| "includes_str (c # s) f = (prefix f (c # s) \<or> includes_str s f)"

text \<open>
  \<open>scrubHeaders\<close>. The loop runs over \<open>Object.entries(headers)\<close>, given as a list, and
  fills a new object.
\<close>

definition scrubHeaders :: "(string \<times> string) list \<Rightarrow> string list \<Rightarrow> (string \<times> string) list"
where
  "scrubHeaders headers additionalScrubFields =
     (let scrubFields = DEFAULT_SCRUB_HEADERS @ additionalScrubFields
      in fold (\<lambda>(key, value) result.
                 if list_ex (\<lambda>f. includes_str (toLowerCase key) (toLowerCase f)) scrubFields
                 then set_property key SCRUBBED result
                 else set_property key value result)
              headers [])"

section \<open>The stack trace parser (stack-parser.ts)\<close>

record StackFrame =
  filename :: string
  lineno :: "nat option"
  colno :: "nat option"
  method_name :: string

text \<open>
  An \<open>Error\<close> object: its identity, \<open>name\<close>, \<open>message\<close> and \<open>stack\<close> (which may be
  \<open>undefined\<close>).
\<close>

record JSError =
  error_ident :: nat
  error_name :: string
  error_message :: string
  error_stack :: "string option"

subsection \<open>Regular expressions\<close>

text \<open>
  The three frame patterns only use literals, repeated character classes (greedy, or
  lazy as in \<open>.+?\<close>), optional groups, sequences and named groups. The matcher lists
  every way to match a prefix of the input, in the order in which a backtracking
  engine tries them, each with what is left of the input and the groups captured.
  Characters are bytes, and \<open>\s\<close>, \<open>\w\<close>, \<open>\d\<close> and \<open>.\<close> are their ASCII parts.
\<close>

datatype cclass = CSpace | CDigit | CMethod | CAny

definition LF :: char where "LF = CHR 0x0A"
definition CR :: char where "CR = CHR 0x0D"

definition is_space :: "char \<Rightarrow> bool" where
  "is_space c = (c \<in> set [CHR '' '', CHR 0x09, CHR 0x0A, CHR 0x0B, CHR 0x0C, CHR 0x0D])"

definition is_word :: "char \<Rightarrow> bool" where
  "is_word c =
     (c \<in> set ''abcdefghijklmnopqrstuvwxyzABCDEFGHIJKLMNOPQRSTUVWXYZ0123456789_'')"

fun in_class :: "cclass \<Rightarrow> char \<Rightarrow> bool" where
  "in_class CSpace c = is_space c"
| "in_class CDigit c = is_digit c"
| "in_class CMethod c = (is_word c \<or> c \<in> set ''.<>[]$'')"
| "in_class CAny c = (c \<noteq> LF \<and> c \<noteq> CR)"

datatype regex =
    Lit string
  | Many cclass nat bool
  | Opt regex
  | Cat regex regex
  | Group string regex

type_synonym groups = "(string \<times> string) list"

fun rmatch :: "regex \<Rightarrow> string \<times> groups \<Rightarrow> (string \<times> groups) list" where
  "rmatch (Lit l) (s, caps) = (if prefix l s then [(drop (length l) s, caps)] else [])"
| "rmatch (Many c n greedy) (s, caps) =
     (let most = length (takeWhile (in_class c) s);
          counts = [n..<Suc most]
      in map (\<lambda>i. (drop i s, caps)) (if greedy then rev counts else counts))"
| "rmatch (Opt r) st = rmatch r st @ [st]"
| "rmatch (Cat r1 r2) st = concat (map (rmatch r2) (rmatch r1 st))"
| "rmatch (Group name r) (s, caps) =
     map (\<lambda>(s', caps'). (s', assign name (take (length s - length s') s) caps'))
       (rmatch r (s, caps))"

text \<open>\<open>str.match(/^...$/)\<close>: the first way that consumes the whole input.\<close>

definition regex_match :: "regex \<Rightarrow> string \<Rightarrow> groups option" where
  "regex_match r s =
     (case filter (\<lambda>(rest, caps). rest = []) (rmatch r (s, [])) of
        [] \<Rightarrow> None
      | (rest, caps) # others \<Rightarrow> Some caps)"

definition seq :: "regex list \<Rightarrow> regex" where
  "seq rs = foldr Cat rs (Lit [])"

definition V8_FRAME_REGEX :: regex where
  "V8_FRAME_REGEX =
     seq [Many CSpace 0 True, Lit ''at'', Many CSpace 1 True,
          Opt (seq [Lit ''async'', Many CSpace 1 True]),
          Opt (seq [Group ''method'' (Many CMethod 1 True), Many CSpace 1 True, Lit ''('']),
          Group ''filename'' (Many CAny 1 False), Lit '':'',
          Group ''lineno'' (Many CDigit 1 True), Lit '':'',
          Group ''colno'' (Many CDigit 1 True),
          Opt (Lit '')'')]"

definition V8_ANONYMOUS_REGEX :: regex where
  "V8_ANONYMOUS_REGEX =
     seq [Many CSpace 0 True, Lit ''at'', Many CSpace 1 True,
          Group ''filename'' (Many CAny 1 False), Lit '':'',
          Group ''lineno'' (Many CDigit 1 True), Lit '':'',
          Group ''colno'' (Many CDigit 1 True)]"

definition FIREFOX_REGEX :: regex where
  "FIREFOX_REGEX =
     seq [Opt (Group ''method'' (Many CMethod 1 True)), Lit ''@'',
          Group ''filename'' (Many CAny 1 False), Lit '':'',
          Group ''lineno'' (Many CDigit 1 True), Lit '':'',
          Group ''colno'' (Many CDigit 1 True)]"

subsection \<open>Lines and frames\<close>

definition trim :: "string \<Rightarrow> string" where
  "trim s = rev (dropWhile is_space (rev (dropWhile is_space s)))"

text \<open>\<open>stack.split('\n')\<close>\<close>

fun split_lines :: "string \<Rightarrow> string list" where
  "split_lines [] = [[]]"
| "split_lines (c # s) =
     (if c = LF then [] # split_lines s
      else (case split_lines s of
              [] \<Rightarrow> [[c]]
            | l # ls \<Rightarrow> (c # l) # ls))"

text \<open>
  The test \<open>groups.filename && groups.lineno && groups.colno\<close> and the frame built when
  it holds; \<open>parseInt\<close> reads the text of a \<open>\d+\<close> group.
\<close>

definition located :: "groups \<Rightarrow> string \<Rightarrow> StackFrame option" where
  "located gs m =
     (case (map_of gs ''filename'', map_of gs ''lineno'', map_of gs ''colno'') of
        (Some f, Some l, Some c) \<Rightarrow>
          if f \<noteq> [] \<and> l \<noteq> [] \<and> c \<noteq> []
          then Some \<lparr>filename = f, lineno = Some (parseInt l), colno = Some (parseInt c),
                     method_name = m\<rparr>
          else None
      | _ \<Rightarrow> None)"

text \<open>\<open>groups.method || '(anonymous)'\<close>\<close>

definition method_or_anonymous :: "groups \<Rightarrow> string" where
  "method_or_anonymous gs =
     (case map_of gs ''method'' of
        Some m \<Rightarrow> if m \<noteq> [] then m else ''(anonymous)''
      | None \<Rightarrow> ''(anonymous)'')"

definition try_regex :: "regex \<Rightarrow> (groups \<Rightarrow> string) \<Rightarrow> string \<Rightarrow> StackFrame option" where
  "try_regex r m trimmed =
     (case regex_match r trimmed of
        None \<Rightarrow> None
      | Some gs \<Rightarrow> located gs (m gs))"

definition parseStackLine :: "string \<Rightarrow> StackFrame option" where
  "parseStackLine line =
     (let trimmed = trim line in
      if trimmed = [] \<or> prefix ''Error:'' trimmed \<or> trimmed = ''Error'' then None
      else (case try_regex V8_FRAME_REGEX method_or_anonymous trimmed of
              Some frame \<Rightarrow> Some frame
            | None \<Rightarrow>
               (case try_regex V8_ANONYMOUS_REGEX (\<lambda>gs. ''(anonymous)'') trimmed of
                  Some frame \<Rightarrow> Some frame
                | None \<Rightarrow>
                   (case try_regex FIREFOX_REGEX method_or_anonymous trimmed of
                      Some frame \<Rightarrow> Some frame
                    | None \<Rightarrow>
                        Some \<lparr>filename = ''(unparsed)'', lineno = None, colno = None,
                              method_name = trimmed\<rparr>))))"

definition no_stack_trace :: "JSError \<Rightarrow> StackFrame list" where
  "no_stack_trace error =
     [\<lparr>filename = ''(no stack trace)'', lineno = None, colno = None,
       method_name = (if error_name error \<noteq> [] then error_name error else ''Error'')\<rparr>]"

definition parseStackFrames :: "JSError \<Rightarrow> StackFrame list" where
  "parseStackFrames error =
     (case error_stack error of
        None \<Rightarrow> no_stack_trace error
      | Some stack \<Rightarrow>
          if stack = [] then no_stack_trace error
          else (let frames = List.map_filter parseStackLine (split_lines stack)
                in if frames = [] then no_stack_trace error else rev frames))"

section \<open>The client (client.ts)\<close>

subsection \<open>Configuration and construction\<close>

definition ROLLBAR_API_URL :: string where
  "ROLLBAR_API_URL = ''https://api.rollbar.com/api/1/item/''"

definition NOTIFIER_NAME :: string where
  "NOTIFIER_NAME = ''@triptech/cloudflare-worker-rollbar''"

definition NOTIFIER_VERSION :: string where
  "NOTIFIER_VERSION = ''2.0.1''"

datatype LogLevel = LevelDebug | LevelInfo | LevelWarning | LevelError | LevelCritical

text \<open>
  \<open>RollbarConfig\<close>. An optional field that is \<open>undefined\<close> is \<open>None\<close>; the access token
  is declared required, but the constructor tests it, so it may be missing here too.
  The two flags are only tested for truth. \<open>payload\<close> refers to an object of the store.
\<close>

record RollbarConfig =
  accessToken :: "string option"
  environment :: "string option"
  codeVersion :: "string option"
  host :: "string option"
  scrubFields :: "string list option"
  includeRequestBody :: bool
  payload :: "addr option"
  verbose :: bool

text \<open>The two private fields of a \<open>Rollbar\<close> instance.\<close>

record Rollbar =
  config :: RollbarConfig
  clientScrubFields :: "string list"

text \<open>A string used as a condition: \<open>undefined\<close> and \<open>''\<close> are false.\<close>

definition truthy :: "string option \<Rightarrow> bool" where
  "truthy s = (case s of None \<Rightarrow> False | Some t \<Rightarrow> t \<noteq> [])"

definition or_default :: "'a option \<Rightarrow> 'a \<Rightarrow> 'a" where
  "or_default x d = (case x of None \<Rightarrow> d | Some y \<Rightarrow> y)"

text \<open>
  The constructor. \<open>Inl\<close> carries the message of the \<open>Error\<close> it throws; then there is no
  instance.
\<close>

definition Rollbar_new :: "RollbarConfig \<Rightarrow> string + Rollbar" where
  "Rollbar_new cfg =
     (if \<not> truthy (accessToken cfg) then Inl ''Rollbar accessToken is required''
      else Inr \<lparr>config = cfg\<lparr>environment := Some (or_default (environment cfg) ''production'')\<rparr>,
                clientScrubFields = DEFAULT_SCRUB_FIELDS @ or_default (scrubFields cfg) []\<rparr>)"

subsection \<open>Request context\<close>

text \<open>
  What the client reads from a Worker \<open>Request\<close>: its url and method, its headers as
  \<open>headers.forEach\<close> yields them, and the entries of \<open>new URL(url).searchParams\<close>.
\<close>

record Request =
  request_url :: string
  request_method :: string
  request_headers :: "(string \<times> string) list"
  request_searchParams :: "(string \<times> string) list"

record RequestContext =
  rc_url :: string
  rc_method :: string
  rc_headers :: "(string \<times> string) list option"
  rc_params :: "(string \<times> string) list option"
  rc_body :: "addr option"
  rc_userIp :: "string option"

definition buildRequestContext :: "Rollbar \<Rightarrow> Request \<Rightarrow> RequestContext" where
  "buildRequestContext this request =
     (let headers = fold (\<lambda>(key, value) headers. set_property key value headers)
                      (request_headers request) []
      in \<lparr>rc_url = request_url request,
          rc_method = request_method request,
          rc_headers = Some (scrubHeaders headers (clientScrubFields this)),
          rc_params = Some (spread [] (request_searchParams request)),
          rc_body = None,
          rc_userIp = map_of (request_headers request) ''cf-connecting-ip''\<rparr>)"

subsection \<open>The payload\<close>

record Person =
  person_id :: string
  person_username :: "string option"
  person_email :: "string option"

record ReportContext =
  ctx_person :: "Person option"
  ctx_request :: "RequestContext option"
  ctx_custom :: "addr option"
  ctx_fingerprint :: "string option"
  ctx_title :: "string option"
  ctx_uuid :: "string option"

record PayloadRequest =
  pr_url :: string
  pr_method :: string
  pr_headers :: "(string \<times> string) list option"
  pr_params :: "(string \<times> string) list option"
  pr_user_ip :: "string option"
  pr_body :: "scrubbed option"

text \<open>
  \<open>body\<close> is \<open>{}\<close> as built, then \<open>{trace: {frames, exception: {class, message}}}\<close> or
  \<open>{message: {body, ...custom}}\<close>.
\<close>

datatype RollbarBody =
    EmptyBody
  | TraceBody "StackFrame list" string string
  | MessageBody "(string \<times> scrubbed) list"

record PayloadData =
  data_environment :: string
  data_body :: RollbarBody
  data_level :: LogLevel
  data_timestamp :: nat
  data_platform :: string
  data_language :: string
  data_notifier :: "string \<times> string"
  data_code_version :: "string option"
  data_server :: "string option"
  data_custom :: "(string \<times> scrubbed) list option"
  data_person :: "Person option"
  data_request :: "PayloadRequest option"
  data_fingerprint :: "string option"
  data_title :: "string option"
  data_uuid :: "string option"

record RollbarPayload =
  access_token :: string
  data :: PayloadData

text \<open>
  \<open>...scrubObject(obj, scrubFields)\<close>: the properties of the scrubbed copy, made with a
  new \<open>WeakSet\<close>. With an empty set the copy is always an object.
\<close>

definition scrubbed_properties :: "heap \<Rightarrow> string list \<Rightarrow> addr \<Rightarrow> (string \<times> scrubbed) list" where
  "scrubbed_properties h fs a =
     (case fst (scrubObject h fs {} a) of
        Node res \<Rightarrow> res
      | Leaf p \<Rightarrow> [])"

text \<open>The \<open>if (context) { ... }\<close> block of \<open>buildPayload\<close>.\<close>

definition add_context :: "heap \<Rightarrow> Rollbar \<Rightarrow> ReportContext \<Rightarrow> PayloadData \<Rightarrow> PayloadData" where
  "add_context h this ctx d0 =
     (let d1 = (case ctx_person ctx of
                  None \<Rightarrow> d0
                | Some p \<Rightarrow> d0\<lparr>data_person := Some p\<rparr>);
          d2 = (case ctx_request ctx of
                  None \<Rightarrow> d1
                | Some r \<Rightarrow>
                    d1\<lparr>data_request := Some
                      \<lparr>pr_url = rc_url r, pr_method = rc_method r, pr_headers = rc_headers r,
                       pr_params = rc_params r, pr_user_ip = rc_userIp r,
                       pr_body =
                         (if includeRequestBody (config this)
                          then (case rc_body r of
                                  None \<Rightarrow> None
                                | Some b \<Rightarrow>
                                    Some (fst (scrubObject h (clientScrubFields this) {} b)))
                          else None)\<rparr>\<rparr>);
          d3 = (case ctx_custom ctx of
                  None \<Rightarrow> d2
                | Some a \<Rightarrow>
                    d2\<lparr>data_custom := Some
                      (spread (or_default (data_custom d2) [])
                         (scrubbed_properties h (clientScrubFields this) a))\<rparr>);
          d4 = (if truthy (ctx_fingerprint ctx) then d3\<lparr>data_fingerprint := ctx_fingerprint ctx\<rparr>
                else d3);
          d5 = (if truthy (ctx_title ctx) then d4\<lparr>data_title := ctx_title ctx\<rparr> else d4)
      in if truthy (ctx_uuid ctx) then d5\<lparr>data_uuid := ctx_uuid ctx\<rparr> else d5)"

text \<open>\<open>now\<close> is \<open>Math.floor(Date.now() / 1000)\<close>.\<close>

definition buildPayload ::
  "heap \<Rightarrow> nat \<Rightarrow> Rollbar \<Rightarrow> LogLevel \<Rightarrow> ReportContext option \<Rightarrow> RollbarPayload" where
  "buildPayload h now this level context =
     (let cfg = config this;
          d0 = \<lparr>data_environment = or_default (environment cfg) ''production'',
                data_body = EmptyBody,
                data_level = level,
                data_timestamp = now,
                data_platform = ''cloudflare-workers'',
                data_language = ''javascript'',
                data_notifier = (NOTIFIER_NAME, NOTIFIER_VERSION),
                data_code_version = None, data_server = None, data_custom = None,
                data_person = None, data_request = None, data_fingerprint = None,
                data_title = None, data_uuid = None\<rparr>;
          d1 = (if truthy (codeVersion cfg) then d0\<lparr>data_code_version := codeVersion cfg\<rparr>
                else d0);
          d2 = (if truthy (host cfg) then d1\<lparr>data_server := host cfg\<rparr> else d1);
          d3 = (case payload cfg of
                  None \<Rightarrow> d2
                | Some a \<Rightarrow>
                    d2\<lparr>data_custom := Some
                      (spread (or_default (data_custom d2) [])
                         (scrubbed_properties h (clientScrubFields this) a))\<rparr>);
          d4 = (case context of
                  None \<Rightarrow> d3
                | Some ctx \<Rightarrow> add_context h this ctx d3)
      in \<lparr>access_token = or_default (accessToken cfg) [], data = d4\<rparr>)"

subsection \<open>Sending\<close>

text \<open>
  Anything can be thrown. A thrown value is an \<open>Error\<close> object (a value for which
  \<open>instanceof Error\<close> holds), or a string, or any other value: a number, \<open>null\<close>, a
  plain object and so on. Of a value of the last kind the client only uses \<open>String(v)\<close>,
  which returns a text or throws in its turn (as it does on \<open>Object.create(null)\<close>), so
  the value is given by its identity and by what \<open>String\<close> does on it. An \<open>Error\<close> made
  while the client runs gets its identity and stack text from the runtime.
\<close>

datatype thrown =
    ErrorObject JSError
  | ThrownString string
  | ThrownOther nat "thrown + string"

record RollbarResponse =
  ack_err :: int
  ack_uuid :: "string option"
  ack_message :: "string option"

text \<open>
  \<open>fetch\<close> either rejects or gives a response, whose \<open>json()\<close> either rejects or gives
  the acknowledgement.
\<close>

datatype fetch_result = Rejected thrown | Responded "thrown + RollbarResponse"

text \<open>
  What the client takes from the runtime: the clock, \<open>fetch\<close>, the text that
  \<open>JSON.stringify(payload)\<close> and \<open>JSON.stringify(payload, null, 2)\<close> return when they
  return, and the identity and the stack text of an \<open>Error\<close> made while the client runs.
\<close>

record runtime =
  rt_now :: nat
  rt_fetch :: "string \<Rightarrow> string \<Rightarrow> fetch_result"
  rt_render :: "RollbarPayload \<Rightarrow> string"
  rt_render_indented :: "RollbarPayload \<Rightarrow> string"
  rt_fresh_ident :: nat
  rt_fresh_stack :: "string option"

definition new_Error :: "runtime \<Rightarrow> string \<Rightarrow> string \<Rightarrow> JSError" where
  "new_Error rt name message =
     \<lparr>error_ident = rt_fresh_ident rt, error_name = name, error_message = message,
      error_stack = rt_fresh_stack rt\<rparr>"

text \<open>What the client does to the outside, in order.\<close>

datatype log_arg =
    LogText string
  | LogMessage "string option"
  | LogThrown thrown
  | LogResponse RollbarResponse

datatype event =
    ConsoleLog string log_arg
  | ConsoleError string log_arg
  | FetchCall string string
  | WaitUntil

text \<open>
  \<open>JSON.stringify\<close> throws a \<open>TypeError\<close> on a \<open>BigInt\<close>; the scrubber copies a \<open>BigInt\<close> as
  it is. The text it returns otherwise is the runtime's.
\<close>

fun bigint_free :: "scrubbed \<Rightarrow> bool"
  and bigint_free_entries :: "(string \<times> scrubbed) list \<Rightarrow> bool"
where
  "bigint_free (Leaf p) = (case p of PBigInt n \<Rightarrow> False | _ \<Rightarrow> True)"
| "bigint_free (Node res) = bigint_free_entries res"
| "bigint_free_entries [] = True"
| "bigint_free_entries ((k, t) # res) = (bigint_free t \<and> bigint_free_entries res)"

definition serializable :: "RollbarPayload \<Rightarrow> bool" where
  "serializable p =
     (bigint_free_entries (or_default (data_custom (data p)) []) \<and>
      (case data_body (data p) of
         MessageBody m \<Rightarrow> bigint_free_entries m
       | _ \<Rightarrow> True) \<and>
      (case data_request (data p) of
         None \<Rightarrow> True
       | Some r \<Rightarrow> (case pr_body r of None \<Rightarrow> True | Some b \<Rightarrow> bigint_free b)))"

definition JSON_stringify :: "runtime \<Rightarrow> RollbarPayload \<Rightarrow> thrown + string" where
  "JSON_stringify rt p =
     (if serializable p then Inr (rt_render rt p)
      else Inl (ErrorObject
                 (new_Error rt ''TypeError'' ''Do not know how to serialize a BigInt'')))"

text \<open>\<open>JSON.stringify(payload, null, 2)\<close>\<close>

definition JSON_stringify_indented :: "runtime \<Rightarrow> RollbarPayload \<Rightarrow> thrown + string" where
  "JSON_stringify_indented rt p =
     (if serializable p then Inr (rt_render_indented rt p)
      else Inl (ErrorObject
                 (new_Error rt ''TypeError'' ''Do not know how to serialize a BigInt'')))"

text \<open>The \<open>try\<close> block of \<open>send\<close>: what it returns or throws, and what it did.\<close>

definition try_send :: "runtime \<Rightarrow> Rollbar \<Rightarrow> RollbarPayload \<Rightarrow> (thrown + RollbarResponse) \<times> event list"
where
  "try_send rt this p =
     (case JSON_stringify rt p of
        Inl e \<Rightarrow> (Inl e, [])
      | Inr body \<Rightarrow>
          (case rt_fetch rt ROLLBAR_API_URL body of
             Rejected e \<Rightarrow> (Inl e, [FetchCall ROLLBAR_API_URL body])
           | Responded json \<Rightarrow>
               (case json of
                  Inl e \<Rightarrow> (Inl e, [FetchCall ROLLBAR_API_URL body])
                | Inr result \<Rightarrow>
                    (Inr result,
                     [FetchCall ROLLBAR_API_URL body] @
                     (if verbose (config this)
                      then [ConsoleLog ''[Rollbar] Response:'' (LogResponse result)] else []) @
                     (if ack_err result \<noteq> 0
                      then [ConsoleError ''[Rollbar] Error response:''
                              (LogMessage (ack_message result))]
                      else [])))))"

text \<open>
  \<open>send\<close>. \<open>Inl\<close> is an exception that leaves \<open>send\<close>; \<open>Inr None\<close> is the \<open>null\<close> it
  returns from its \<open>catch\<close>. The verbose log of the payload comes before the \<open>try\<close>.
\<close>

definition send ::
  "runtime \<Rightarrow> Rollbar \<Rightarrow> RollbarPayload \<Rightarrow> (thrown + RollbarResponse option) \<times> event list"
where
  "send rt this p =
     (case (if verbose (config this)
            then (case JSON_stringify_indented rt p of
                    Inl e \<Rightarrow> Inl e
                  | Inr text \<Rightarrow> Inr [ConsoleLog ''[Rollbar] Sending payload:'' (LogText text)])
            else Inr []) of
        Inl e \<Rightarrow> (Inl e, [])
      | Inr logged \<Rightarrow>
          (case try_send rt this p of
             (Inr result, did) \<Rightarrow> (Inr (Some result), logged @ did)
           | (Inl err, did) \<Rightarrow>
               (Inr None,
                logged @ did @ [ConsoleError ''[Rollbar] Failed to send:'' (LogThrown err)])))"

definition reportError ::
  "runtime \<Rightarrow> heap \<Rightarrow> Rollbar \<Rightarrow> LogLevel \<Rightarrow> JSError \<Rightarrow> ReportContext option \<Rightarrow>
     (thrown + RollbarResponse option) \<times> event list"
where
  "reportError rt h this level error context =
     (let frames = parseStackFrames error;
          p = buildPayload h (rt_now rt) this level context
      in send rt this
           (p\<lparr>data := (data p)\<lparr>data_body :=
                TraceBody frames (error_name error) (error_message error)\<rparr>\<rparr>))"

definition logMessage ::
  "runtime \<Rightarrow> heap \<Rightarrow> Rollbar \<Rightarrow> LogLevel \<Rightarrow> string \<Rightarrow> ReportContext option \<Rightarrow>
     (thrown + RollbarResponse option) \<times> event list"
where
  "logMessage rt h this level message context =
     (let p = buildPayload h (rt_now rt) this level context;
          scrubbedCustom =
            (case context of
               None \<Rightarrow> []
             | Some ctx \<Rightarrow>
                 (case ctx_custom ctx of
                    None \<Rightarrow> []
                  | Some a \<Rightarrow> scrubbed_properties h (clientScrubFields this) a))
      in send rt this
           (p\<lparr>data := (data p)\<lparr>data_body :=
                MessageBody (spread [(''body'', Leaf (PStr message))] scrubbedCustom)\<rparr>\<rparr>))"

text \<open>The public report methods \<open>info\<close> and \<open>error\<close>.\<close>

definition Rollbar_info ::
  "runtime \<Rightarrow> heap \<Rightarrow> Rollbar \<Rightarrow> string \<Rightarrow> ReportContext option \<Rightarrow>
     (thrown + RollbarResponse option) \<times> event list"
where
  "Rollbar_info rt h this message context = logMessage rt h this LevelInfo message context"

definition Rollbar_error ::
  "runtime \<Rightarrow> heap \<Rightarrow> Rollbar \<Rightarrow> JSError \<Rightarrow> ReportContext option \<Rightarrow>
     (thrown + RollbarResponse option) \<times> event list"
where
  "Rollbar_error rt h this error context = reportError rt h this LevelError error context"

subsection \<open>The handler wrapper\<close>

record Response =
  response_status :: nat
  response_body :: string
  response_headers :: "(string \<times> string) list"

record WrapperOptions =
  wo_rethrow :: bool
  wo_errorResponse :: "(JSError \<Rightarrow> Response) option"
  wo_context :: "ReportContext option"

definition no_context :: ReportContext where
  "no_context =
     \<lparr>ctx_person = None, ctx_request = None, ctx_custom = None, ctx_fingerprint = None,
      ctx_title = None, ctx_uuid = None\<rparr>"

definition internal_server_error :: Response where
  "internal_server_error =
     \<lparr>response_status = 500,
      response_body = ''{\"error\":\"Internal Server Error\"}'',
      response_headers = [(''Content-Type'', ''application/json'')]\<rparr>"

text \<open>What follows the report in the \<open>catch\<close> block of the wrapped handler.\<close>

definition after_report :: "WrapperOptions \<Rightarrow> JSError \<Rightarrow> thrown + Response" where
  "after_report options error =
     (if wo_rethrow options then Inl (ErrorObject error)
      else (case wo_errorResponse options of
              Some respond \<Rightarrow> Inr (respond error)
            | None \<Rightarrow> Inr internal_server_error))"

text \<open>
  \<open>err instanceof Error ? err : new Error(String(err))\<close>. \<open>Inl\<close> is what \<open>String(err)\<close>
  throws when it throws.
\<close>

definition as_Error :: "runtime \<Rightarrow> thrown \<Rightarrow> thrown + JSError" where
  "as_Error rt err =
     (case err of
        ErrorObject e \<Rightarrow> Inr e
      | ThrownString s \<Rightarrow> Inr (new_Error rt ''Error'' s)
      | ThrownOther i out \<Rightarrow>
          (case out of
             Inl e \<Rightarrow> Inl e
           | Inr s \<Rightarrow> Inr (new_Error rt ''Error'' s)))"

text \<open>\<open>{...options.context, request: this.buildRequestContext(request)}\<close>\<close>

definition report_context :: "Rollbar \<Rightarrow> WrapperOptions \<Rightarrow> Request \<Rightarrow> ReportContext" where
  "report_context this options request =
     (or_default (wo_context options) no_context)
       \<lparr>ctx_request := Some (buildRequestContext this request)\<rparr>"

text \<open>
  A report method is an \<open>async\<close> function: when it is called it runs up to its first
  \<open>await\<close>, and the rest runs later, once the awaited promise has settled. The first
  \<open>await\<close> of a report is that of the \<open>fetch\<close> call in \<open>send\<close>. So of the events of a
  report, those up to the call of \<open>fetch\<close> have happened when the call of the report
  method returns its promise (\<open>issued\<close>), and those after it come later (\<open>deferred\<close>). A
  report that ends before it calls \<open>fetch\<close> has no \<open>await\<close> and nothing deferred.
\<close>

fun issued :: "event list \<Rightarrow> event list" where
  "issued [] = []"
| "issued (e # es) = (case e of FetchCall url body \<Rightarrow> [e] | _ \<Rightarrow> e # issued es)"

fun deferred :: "event list \<Rightarrow> event list" where
  "deferred [] = []"
| "deferred (e # es) = (case e of FetchCall url body \<Rightarrow> es | _ \<Rightarrow> deferred es)"

text \<open>
  \<open>wrap(handler, options)\<close> applied to a request. The handler returns a response
  or throws; \<open>hasWaitUntil\<close> tells whether the call came with a context that has
  \<open>waitUntil\<close>. The result is what the wrapped handler returns or throws, what has
  happened by then, and what the report does afterwards. A report handed to \<open>waitUntil\<close>
  is not awaited: the wrapped handler goes on as soon as the report is issued, and a
  failure of the report does not reach it. Without \<open>waitUntil\<close> the report is awaited,
  and a report that throws makes the wrapped handler throw the same.
\<close>

definition wrap ::
  "runtime \<Rightarrow> heap \<Rightarrow> Rollbar \<Rightarrow> (Request \<Rightarrow> thrown + Response) \<Rightarrow> WrapperOptions \<Rightarrow>
     Request \<Rightarrow> bool \<Rightarrow> (thrown + Response) \<times> event list \<times> event list"
where
  "wrap rt h this handler options request hasWaitUntil =
     (case handler request of
        Inr response \<Rightarrow> (Inr response, [], [])
      | Inl err \<Rightarrow>
          (case as_Error rt err of
             Inl e \<Rightarrow> (Inl e, [], [])
           | Inr error \<Rightarrow>
               (let reportContext = report_context this options request
                in (case Rollbar_error rt h this error (Some reportContext) of
                      (reported, did) \<Rightarrow>
                        if hasWaitUntil
                        then (after_report options error, issued did @ [WaitUntil], deferred did)
                        else (case reported of
                                Inl failure \<Rightarrow> (Inl failure, did, [])
                              | Inr ack \<Rightarrow> (after_report options error, did, []))))))"

subsection \<open>Binding a person\<close>

text \<open>
  \<open>withPerson(person)\<close>. \<open>{...this.config.payload, person}\<close> is a new object, placed at
  the next free address of the store; \<open>person\<close> refers to the caller's person object.
\<close>

definition withPerson :: "heap \<Rightarrow> Rollbar \<Rightarrow> addr \<Rightarrow> (string + Rollbar) \<times> heap" where
  "withPerson h this person =
     (let inherited = (case payload (config this) of None \<Rightarrow> [] | Some a \<Rightarrow> entries h a);
          newConfig = (config this)\<lparr>payload := Some (length h)\<rparr>
      in (Rollbar_new newConfig, h @ [assign ''person'' (Ref person) inherited]))"

section \<open>Example stores, clients and requests\<close>

text \<open>A container under a sensitive key, holding itself.\<close>

definition secretHeap :: heap where
  "secretHeap = [[(''token'', Ref 1), (''name'', Prim (PStr ''n''))], [(''self'', Ref 1)]]"


text \<open>
  An object with a nested object under \<open>user\<close>, which has a \<open>password\<close>, and with itself
  under \<open>self\<close>.
\<close>

definition nestedHeap :: heap where
  "nestedHeap =
     [[(''user'', Ref 1), (''id'', Prim (PNum 7)), (''self'', Ref 0)],
      [(''password'', Prim (PStr ''hunter2''))]]"


definition customHeap :: heap where
  "customHeap =
     [[(''customSecret'', Prim (PStr ''secret'')), (''normalField'', Prim (PStr ''value'')),
       (''Password'', Prim (PStr ''pw''))]]"

definition customConfig :: RollbarConfig where
  "customConfig =
     \<lparr>accessToken = Some ''test-token'', environment = None, codeVersion = None, host = None,
      scrubFields = Some [''customSecret''], includeRequestBody = False, payload = None,
      verbose = False\<rparr>"

text \<open>The headers of the request built in tests/client.test.ts, and two more.\<close>

definition exampleHeaders :: "(string \<times> string) list" where
  "exampleHeaders =
     [(''content-type'', ''application/json''), (''Authorization'', ''Bearer token123''),
      (''x-custom-header'', ''value''), (''X-Session-Cookie-Id'', ''abc''),
      (''x-trace'', ''on'')]"

text \<open>The trace of the spec's example, and the trace of a \<open>TypeError\<close>.\<close>

definition twoLineTrace :: string where
  "twoLineTrace = ''Error: msg'' @ [LF] @ ''  at foo (a.js:1:2)'' @ [LF] @ ''  at b.js:3:4''"

definition typeErrorTrace :: string where
  "typeErrorTrace = ''TypeError: boom'' @ [LF] @ ''    at foo (a.js:1:2)''"

definition typeError :: JSError where
  "typeError =
     \<lparr>error_ident = 0, error_name = ''TypeError'', error_message = ''boom'',
      error_stack = Some typeErrorTrace\<rparr>"

text \<open>
  Two clients built from \<open>customConfig\<close>, the second with \<open>verbose\<close> set, and a
  per-call custom object that holds a \<open>BigInt\<close>.
\<close>

definition plainClient :: Rollbar where
  "plainClient =
     \<lparr>config = customConfig\<lparr>environment := Some ''production''\<rparr>,
      clientScrubFields = DEFAULT_SCRUB_FIELDS @ [''customSecret'']\<rparr>"

definition verboseClient :: Rollbar where
  "verboseClient =
     \<lparr>config = customConfig\<lparr>environment := Some ''production'', verbose := True\<rparr>,
      clientScrubFields = DEFAULT_SCRUB_FIELDS @ [''customSecret'']\<rparr>"

definition bigintHeap :: heap where
  "bigintHeap = [[(''n'', Prim (PBigInt 10))]]"

definition bigintContext :: ReportContext where
  "bigintContext = no_context\<lparr>ctx_custom := Some 0\<rparr>"

text \<open>
  A runtime whose \<open>fetch\<close> always succeeds with an accepting acknowledgement, as the
  mocked \<open>fetch\<close> of the tests; a request; and two handlers that throw.
\<close>

definition ok_ack :: RollbarResponse where
  "ok_ack = \<lparr>ack_err = 0, ack_uuid = Some ''test-uuid'', ack_message = None\<rparr>"

definition quietRuntime :: runtime where
  "quietRuntime =
     \<lparr>rt_now = 0,
      rt_fetch = (\<lambda>url body. Responded (Inr ok_ack)),
      rt_render = (\<lambda>p. ''{}''),
      rt_render_indented = (\<lambda>p. ''{ }''),
      rt_fresh_ident = 1,
      rt_fresh_stack = None\<rparr>"

definition exampleRequest :: Request where
  "exampleRequest =
     \<lparr>request_url = ''https://example.com/test'', request_method = ''GET'',
      request_headers = [], request_searchParams = []\<rparr>"

definition rethrowMe :: JSError where
  "rethrowMe =
     \<lparr>error_ident = 7, error_name = ''Error'', error_message = ''Rethrow me'',
      error_stack = None\<rparr>"

definition throwsError :: "Request \<Rightarrow> thrown + Response" where
  "throwsError request = Inl (ErrorObject rethrowMe)"

definition throwsString :: "Request \<Rightarrow> thrown + Response" where
  "throwsString request = Inl (ThrownString ''String error'')"

definition rethrowOptions :: WrapperOptions where
  "rethrowOptions = \<lparr>wo_rethrow = True, wo_errorResponse = None, wo_context = None\<rparr>"

text \<open>
  A store with a person object and a per-call custom object that has a \<open>person\<close> key of
  its own; the store and the client that \<open>withPerson\<close> makes of them.
\<close>

definition personHeap :: heap where
  "personHeap =
     [[(''id'', Prim (PStr ''user-456'')), (''username'', Prim (PStr ''johndoe''))],
      [(''person'', Prim (PStr ''override''))]]"

definition derivedHeap :: heap where
  "derivedHeap = personHeap @ [[(''person'', Ref 0)]]"

definition derivedClient :: Rollbar where
  "derivedClient =
     \<lparr>config = customConfig\<lparr>environment := Some ''production'', payload := Some 2\<rparr>,
      clientScrubFields = DEFAULT_SCRUB_FIELDS @ [''customSecret'']\<rparr>"

definition overrideContext :: ReportContext where
  "overrideContext = no_context\<lparr>ctx_custom := Some 1\<rparr>"

section \<open>Properties of objects\<close>

text \<open>
  An object read by key after a property has been defined or assigned: the property has
  the new value, every other key holds what it held, and no key occurs twice.
\<close>

lemma keys_replace_value: "map fst (replace_value k v kvs) = map fst kvs"
  by (induction kvs) auto

lemma map_of_replace_value:
  "map_of (replace_value k v kvs) k' =
     (if k' = k \<and> k \<in> fst ` set kvs then Some v else map_of kvs k')"
  by (induction kvs) (auto simp: rev_image_eqI)

lemma set_insert_index: "set (insert_index k v kvs) = insert (k, v) (set kvs)"
  by (induction kvs) (auto split: if_splits)

lemma map_of_insert_index:
  "k \<notin> fst ` set kvs \<Longrightarrow>
     map_of (insert_index k v kvs) k' = (if k' = k then Some v else map_of kvs k')"
  by (induction kvs) auto

lemma distinct_insert_index:
  "distinct (map fst kvs) \<Longrightarrow> k \<notin> fst ` set kvs \<Longrightarrow> distinct (map fst (insert_index k v kvs))"
  by (induction kvs) (auto simp: set_insert_index)

lemma map_of_assign: "map_of (assign k v kvs) k' = (if k' = k then Some v else map_of kvs k')"
proof (cases "k \<in> fst ` set kvs")
  case True
  then show ?thesis by (simp add: assign_def map_of_replace_value)
next
  case False
  then have none: "map_of kvs k = None" by (simp add: map_of_eq_None_iff)
  show ?thesis
  proof (cases "is_array_index k")
    case True
    with False have "assign k v kvs = insert_index k v kvs" by (simp add: assign_def)
    then show ?thesis by (simp add: map_of_insert_index [OF False])
  next
    case index: False
    with False have "assign k v kvs = kvs @ [(k, v)]" by (simp add: assign_def)
    with none show ?thesis by (simp add: map_add_def split: option.splits)
  qed
qed

lemma map_of_assign_same: "map_of (assign k v kvs) k = Some v"
  by (simp add: map_of_assign)

lemma map_of_assign_other: "k' \<noteq> k \<Longrightarrow> map_of (assign k v kvs) k' = map_of kvs k'"
  by (simp add: map_of_assign)

lemma distinct_assign: "distinct (map fst kvs) \<Longrightarrow> distinct (map fst (assign k v kvs))"
  by (auto simp: assign_def keys_replace_value distinct_insert_index)

lemma takeWhile_replace_value:
  "takeWhile (\<lambda>e. fst e \<noteq> k) (replace_value k v kvs) = takeWhile (\<lambda>e. fst e \<noteq> k) kvs"
  by (induction kvs) auto

lemma before_assign:
  assumes "\<not> is_array_index k"
  shows "takeWhile (\<lambda>e. fst e \<noteq> k) (assign k v kvs) = takeWhile (\<lambda>e. fst e \<noteq> k) kvs"
proof (cases "k \<in> set (map fst kvs)")
  case True
  then show ?thesis by (simp add: assign_def takeWhile_replace_value)
next
  case False
  then have all: "\<forall>e \<in> set kvs. fst e \<noteq> k" by auto
  then have one: "takeWhile (\<lambda>e. fst e \<noteq> k) kvs = kvs"
    by (simp add: takeWhile_eq_all_conv)
  from all have "takeWhile (\<lambda>e. fst e \<noteq> k) (kvs @ [(k, v)]) = kvs"
    by simp
  moreover have "assign k v kvs = kvs @ [(k, v)]"
    using False assms by (simp add: assign_def)
  ultimately show ?thesis by (simp only: one)
qed

lemma map_of_set_property:
  "map_of (set_property k v obj) k' =
     (if k = ''__proto__'' then map_of obj k' else if k' = k then Some v else map_of obj k')"
  by (simp add: set_property_def map_of_assign)

lemma distinct_set_property:
  "distinct (map fst obj) \<Longrightarrow> distinct (map fst (set_property k v obj))"
  by (simp add: set_property_def distinct_assign)

lemma set_property_if:
  "(\<lambda>(key, value) result. if P key then set_property key c result else set_property key value result) =
   (\<lambda>(key, value) result. set_property key (if P key then c else value) result)"
  by (auto simp: fun_eq_iff)

lemma fold_set_property:
  "distinct (map fst kvs) \<Longrightarrow>
     map_of (fold (\<lambda>(k, v) result. set_property k (g k v) result) kvs acc) name =
       (if name = ''__proto__'' then map_of acc name
        else case map_of kvs name of None \<Rightarrow> map_of acc name | Some v \<Rightarrow> Some (g name v))"
proof (induction kvs arbitrary: acc)
  case Nil
  show ?case by simp
next
  case (Cons kv kvs)
  obtain k v where kv: "kv = (k, v)" by (cases kv)
  from Cons.prems kv have d: "distinct (map fst kvs)" and new: "map_of kvs k = None"
    by (auto simp: map_of_eq_None_iff)
  from Cons.IH [OF d, of "set_property k (g k v) acc"] kv new show ?case
    by (auto simp: map_of_set_property split: option.splits)
qed

lemma fold_set_property_distinct:
  "distinct (map fst acc) \<Longrightarrow>
     distinct (map fst (fold (\<lambda>(k, v) result. set_property k (g k v) result) kvs acc))"
proof (induction kvs arbitrary: acc)
  case Nil
  then show ?case by simp
next
  case (Cons kv kvs)
  obtain k v where kv: "kv = (k, v)" by (cases kv)
  from Cons.IH [of "set_property k (g k v) acc"] Cons.prems kv show ?case
    by (simp add: distinct_set_property)
qed

section \<open>Properties of the scrubber\<close>

lemma scrubEntries_Cons:
  "scrubEntries h fs visited ((key, v) # rest) =
     (case loop_body h fs visited key v of
        (r, visited1) \<Rightarrow>
          (case scrubEntries h fs visited1 rest of
             (res, visited2) \<Rightarrow> ((key, r) # res, visited2)))"
  by (simp add: scrubEntries.simps loop_body_def)

lemma scrubEntries_step:
  "scrubEntries h fs visited ((key, v) # rest) =
     ((key, fst (loop_body h fs visited key v)) #
        fst (scrubEntries h fs (snd (loop_body h fs visited key v)) rest),
      snd (scrubEntries h fs (snd (loop_body h fs visited key v)) rest))"
  by (simp add: scrubEntries_Cons split: prod.splits)

lemma visited_mono:
  "visited \<subseteq> snd (scrubObject h fs visited a)"
  "visited \<subseteq> snd (scrubEntries h fs visited es)"
proof (induct h fs visited a and h fs visited es rule: scrubObject_scrubEntries.induct)
  case (1 h fs visited a)
  then show ?case
    by (auto simp: scrubObject.simps split: prod.splits)
next
  case (2 h fs visited)
  show ?case by (simp add: scrubEntries.simps)
next
  case (3 h fs visited key v rest)
  obtain r visited1 where body: "loop_body h fs visited key v = (r, visited1)"
    by (cases "loop_body h fs visited key v")
  have one: "visited \<subseteq> visited1"
  proof (cases "\<not> sensitive fs key \<and> (\<exists>b. v = Ref b \<and> b \<notin> visited)")
    case True
    then obtain b where b: "\<not> sensitive fs key" "v = Ref b" "b \<notin> visited" by blast
    with body have "scrubObject h fs visited b = (r, visited1)"
      by (simp add: loop_body_def)
    with "3"(1) [OF b] show ?thesis by simp
  next
    case False
    with body show ?thesis
      by (auto simp: loop_body_def split: if_splits jsval.splits)
  qed
  have "(r, visited1) =
      (if sensitive fs key then (Leaf (PStr SCRUBBED), visited)
       else case v of Prim p \<Rightarrow> (Leaf p, visited)
            | Ref b \<Rightarrow> if b \<in> visited then (Leaf (PStr CIRCULAR), visited)
                       else scrubObject h fs visited b)"
    using body by (simp add: loop_body_def)
  from "3"(2) [OF this] have two: "visited1 \<subseteq> snd (scrubEntries h fs visited1 rest)" .
  have "snd (scrubEntries h fs visited ((key, v) # rest)) = snd (scrubEntries h fs visited1 rest)"
    using body by (simp add: scrubEntries_Cons split: prod.splits)
  with one two show ?case by auto
qed

lemma scrubEntries_keys: "map fst (fst (scrubEntries h fs visited es)) = map fst es"
proof (induction es arbitrary: visited)
  case Nil
  show ?case by (simp add: scrubEntries.simps)
next
  case (Cons e es)
  obtain key v where e: "e = (key, v)" by (cases e)
  show ?case
    using Cons.IH [of "snd (loop_body h fs visited key v)"]
    by (simp add: e scrubEntries_step)
qed

lemma scrubObject_fresh:
  "a \<notin> visited \<Longrightarrow>
     scrubObject h fs visited a =
       (Node (fst (scrubEntries h fs (insert a visited) (entries h a))),
        snd (scrubEntries h fs (insert a visited) (entries h a)))"
  by (simp add: scrubObject.simps split: prod.splits)

lemma visited_reach:
  "snd (scrubObject h fs visited a) \<subseteq> visited \<union> {c. reach h fs a c}"
  "snd (scrubEntries h fs visited es) \<subseteq>
     visited \<union> {c. \<exists>k b. (k, Ref b) \<in> set es \<and> \<not> sensitive fs k \<and> reach h fs b c}"
proof (induct h fs visited a and h fs visited es rule: scrubObject_scrubEntries.induct)
  case (1 h fs visited a)
  show ?case
  proof (cases "a \<in> visited")
    case True
    then show ?thesis by (simp add: scrubObject.simps)
  next
    case False
    from "1" [OF False]
    have "snd (scrubEntries h fs (insert a visited) (entries h a)) \<subseteq>
        insert a visited \<union>
        {c. \<exists>k b. (k, Ref b) \<in> set (entries h a) \<and> \<not> sensitive fs k \<and> reach h fs b c}" .
    also have "\<dots> \<subseteq> visited \<union> {c. reach h fs a c}"
      by (auto intro: reach.intros)
    finally show ?thesis
      by (simp add: scrubObject_fresh [OF False])
  qed
next
  case (2 h fs visited)
  show ?case by (simp add: scrubEntries.simps)
next
  case (3 h fs visited key v rest)
  obtain r visited1 where body: "loop_body h fs visited key v = (r, visited1)"
    by (cases "loop_body h fs visited key v")
  have one: "visited1 \<subseteq> visited \<union>
      {c. \<exists>b. v = Ref b \<and> \<not> sensitive fs key \<and> reach h fs b c}"
  proof (cases "sensitive fs key")
    case True
    with body show ?thesis by (simp add: loop_body_def)
  next
    case False
    show ?thesis
    proof (cases v)
      case (Prim p)
      with body False show ?thesis by (simp add: loop_body_def)
    next
      case (Ref b)
      show ?thesis
      proof (cases "b \<in> visited")
        case True
        with body False Ref show ?thesis by (simp add: loop_body_def)
      next
        case nv: False
        from body False Ref nv have "scrubObject h fs visited b = (r, visited1)"
          by (simp add: loop_body_def)
        with "3"(1) [OF False Ref nv] False Ref show ?thesis by auto
      qed
    qed
  qed
  have "(r, visited1) =
      (if sensitive fs key then (Leaf (PStr SCRUBBED), visited)
       else case v of Prim p \<Rightarrow> (Leaf p, visited)
            | Ref b \<Rightarrow> if b \<in> visited then (Leaf (PStr CIRCULAR), visited)
                       else scrubObject h fs visited b)"
    using body by (simp add: loop_body_def)
  from "3"(2) [OF this]
  have two: "snd (scrubEntries h fs visited1 rest) \<subseteq>
      visited1 \<union> {c. \<exists>k b. (k, Ref b) \<in> set rest \<and> \<not> sensitive fs k \<and> reach h fs b c}" .
  have three: "snd (scrubEntries h fs visited ((key, v) # rest)) =
      snd (scrubEntries h fs visited1 rest)"
    using body by (simp add: scrubEntries_step)
  show ?case
  proof
    fix c
    assume "c \<in> snd (scrubEntries h fs visited ((key, v) # rest))"
    with three two have "c \<in> visited1 \<or>
        (\<exists>k b. (k, Ref b) \<in> set rest \<and> \<not> sensitive fs k \<and> reach h fs b c)"
      by auto
    then show "c \<in> visited \<union>
        {c. \<exists>k b. (k, Ref b) \<in> set ((key, v) # rest) \<and> \<not> sensitive fs k \<and> reach h fs b c}"
    proof
      assume "c \<in> visited1"
      with one have "c \<in> visited \<or> (\<exists>b. v = Ref b \<and> \<not> sensitive fs key \<and> reach h fs b c)"
        by auto
      then show ?thesis by auto
    next
      assume "\<exists>k b. (k, Ref b) \<in> set rest \<and> \<not> sensitive fs k \<and> reach h fs b c"
      then show ?thesis by auto
    qed
  qed
qed

lemma loop_body_sensitive:
  "sensitive fs key \<Longrightarrow> fst (loop_body h fs vis key v) = Leaf (PStr SCRUBBED)"
  by (simp add: loop_body_def)



text \<open>
  The visited set, exactly. What \<open>scrubObject\<close> adds to the visited set are the objects
  that can be reached from its argument, along keys that are not sensitive, through
  objects that were not visited before the call.
\<close>

lemma outside_antimono:
  "outside h fs V' a c \<Longrightarrow> V \<subseteq> V' \<Longrightarrow> outside h fs V a c"
  by (induction rule: outside.induct) (auto intro: outside.intros)

lemma outside_trans:
  "outside h fs V a b \<Longrightarrow> outside h fs V b c \<Longrightarrow> outside h fs V a c"
  by (induction rule: outside.induct) (auto intro: outside.intros)

lemma outside_start: "outside h fs V a c \<Longrightarrow> a \<notin> V"
  by (erule outside.cases) auto

lemma outside_through:
  assumes "outside h fs V x c" and "a \<notin> V"
  shows "c = a \<or> outside h fs (insert a V) x c \<or>
         (\<exists>k b. (k, Ref b) \<in> set (entries h a) \<and> \<not> sensitive fs k \<and>
                 outside h fs (insert a V) b c)"
  using assms
proof (induction rule: outside.induct)
  case (outside_self x)
  then show ?case by (cases "x = a") (auto intro: outside.intros)
next
  case (outside_edge x k y c)
  from outside_edge.IH [OF outside_edge.prems]
  show ?case
  proof (elim disjE)
    assume "c = a" then show ?thesis by simp
  next
    assume y: "outside h fs (insert a V) y c"
    show ?thesis
    proof (cases "x = a")
      case True
      with y outside_edge.hyps show ?thesis by blast
    next
      case False
      with y outside_edge.hyps have "outside h fs (insert a V) x c"
        by (auto intro: outside.intros)
      then show ?thesis by simp
    qed
  next
    assume "\<exists>k b. (k, Ref b) \<in> set (entries h a) \<and> \<not> sensitive fs k \<and>
                 outside h fs (insert a V) b c"
    then show ?thesis by simp
  qed
qed

lemma outside_around:
  assumes "outside h fs V x c"
  shows "outside h fs (V \<union> {d. outside h fs V b d}) x c \<or> outside h fs V b c"
  using assms
proof (induction rule: outside.induct)
  case (outside_self x)
  show ?case
  proof (cases "outside h fs V b x")
    case True
    then show ?thesis by simp
  next
    case False
    with outside_self have "x \<notin> V \<union> {d. outside h fs V b d}" by simp
    then show ?thesis by (auto intro: outside.intros)
  qed
next
  case (outside_edge x k y c)
  show ?case
  proof (cases "outside h fs V b x")
    case True
    from outside_edge.hyps have "outside h fs V x c" by (auto intro: outside.intros)
    with True have "outside h fs V b c" by (rule outside_trans)
    then show ?thesis by simp
  next
    case False
    with outside_edge.hyps have x: "x \<notin> V \<union> {d. outside h fs V b d}" by simp
    from outside_edge.IH show ?thesis
    proof
      assume "outside h fs (V \<union> {d. outside h fs V b d}) y c"
      with x outside_edge.hyps have "outside h fs (V \<union> {d. outside h fs V b d}) x c"
        by (auto intro: outside.intros)
      then show ?thesis by simp
    next
      assume "outside h fs V b c"
      then show ?thesis by simp
    qed
  qed
qed

lemma visited_after_Nil: "visited_after h fs V [] = V"
  by (simp add: visited_after_def)


lemma visited_exact:
  "snd (scrubObject h fs visited a) = visited \<union> {c. outside h fs visited a c}"
  "snd (scrubEntries h fs visited es) = visited_after h fs visited es"
proof (induct h fs visited a and h fs visited es rule: scrubObject_scrubEntries.induct)
  case (1 h fs visited a)
  show ?case
  proof (cases "a \<in> visited")
    case True
    then have "{c. outside h fs visited a c} = {}"
      by (auto dest: outside_start)
    with True show ?thesis by (simp add: scrubObject.simps)
  next
    case False
    let ?V = "insert a visited"
    from "1" [OF False]
    have eq: "snd (scrubObject h fs visited a) = visited_after h fs ?V (entries h a)"
      by (simp add: scrubObject_fresh [OF False])
    have "visited_after h fs ?V (entries h a) = visited \<union> {c. outside h fs visited a c}"
    proof (intro equalityI subsetI)
      fix c
      assume "c \<in> visited_after h fs ?V (entries h a)"
      then consider "c = a" | "c \<in> visited"
        | k b where "(k, Ref b) \<in> set (entries h a)" "\<not> sensitive fs k" "outside h fs ?V b c"
        by (auto simp: visited_after_def)
      then show "c \<in> visited \<union> {c. outside h fs visited a c}"
      proof cases
        case 1
        with False show ?thesis by (auto intro: outside.intros)
      next
        case 2
        then show ?thesis by simp
      next
        case 3
        from 3(3) have "outside h fs visited b c"
          by (rule outside_antimono) auto
        with False 3(1,2) have "outside h fs visited a c"
          by (auto intro: outside.intros)
        then show ?thesis by simp
      qed
    next
      fix c
      assume "c \<in> visited \<union> {c. outside h fs visited a c}"
      then show "c \<in> visited_after h fs ?V (entries h a)"
      proof
        assume "c \<in> visited"
        then show ?thesis by (simp add: visited_after_def)
      next
        assume "c \<in> {c. outside h fs visited a c}"
        then have "outside h fs visited a c" by simp
        from outside_through [OF this False]
        show ?thesis
          by (auto simp: visited_after_def dest: outside_start)
      qed
    qed
    with eq show ?thesis by simp
  qed
next
  case (2 h fs visited)
  show ?case by (simp add: scrubEntries.simps visited_after_Nil)
next
  case (3 h fs visited key v rest)
  obtain r visited1 where body: "loop_body h fs visited key v = (r, visited1)"
    by (cases "loop_body h fs visited key v")
  have "(r, visited1) =
      (if sensitive fs key then (Leaf (PStr SCRUBBED), visited)
       else case v of Prim p \<Rightarrow> (Leaf p, visited)
            | Ref b \<Rightarrow> if b \<in> visited then (Leaf (PStr CIRCULAR), visited)
                       else scrubObject h fs visited b)"
    using body by (simp add: loop_body_def)
  from "3"(2) [OF this]
  have two: "snd (scrubEntries h fs visited1 rest) = visited_after h fs visited1 rest" .
  have three: "snd (scrubEntries h fs visited ((key, v) # rest)) =
      snd (scrubEntries h fs visited1 rest)"
    using body by (simp add: scrubEntries_step)
  show ?case
  proof (cases "\<not> sensitive fs key \<and> (\<exists>b. v = Ref b \<and> b \<notin> visited)")
    case True
    then obtain b where b: "\<not> sensitive fs key" "v = Ref b" "b \<notin> visited" by blast
    with body have "scrubObject h fs visited b = (r, visited1)"
      by (simp add: loop_body_def)
    with "3"(1) [OF b] have v1: "visited1 = visited \<union> {c. outside h fs visited b c}"
      by simp
    have "visited_after h fs visited1 rest = visited_after h fs visited ((key, v) # rest)"
    proof (intro equalityI subsetI)
      fix c
      assume "c \<in> visited_after h fs visited1 rest"
      then consider "c \<in> visited1"
        | k' b' where "(k', Ref b') \<in> set rest" "\<not> sensitive fs k'" "outside h fs visited1 b' c"
        by (auto simp: visited_after_def)
      then show "c \<in> visited_after h fs visited ((key, v) # rest)"
      proof cases
        case 1
        with v1 b show ?thesis by (auto simp: visited_after_def)
      next
        case 2
        from 2(3) have "outside h fs visited b' c"
          by (rule outside_antimono) (simp add: v1)
        with 2(1,2) show ?thesis by (auto simp: visited_after_def)
      qed
    next
      fix c
      assume "c \<in> visited_after h fs visited ((key, v) # rest)"
      then consider "c \<in> visited" | "outside h fs visited b c"
        | k' b' where "(k', Ref b') \<in> set rest" "\<not> sensitive fs k'" "outside h fs visited b' c"
        using b by (auto simp: visited_after_def)
      then show "c \<in> visited_after h fs visited1 rest"
      proof cases
        case 1
        then show ?thesis by (simp add: visited_after_def v1)
      next
        case 2
        then show ?thesis by (simp add: visited_after_def v1)
      next
        case 3
        from outside_around [OF 3(3), of b]
        have "outside h fs visited1 b' c \<or> outside h fs visited b c"
          by (simp add: v1)
        with 3(1,2) show ?thesis by (auto simp: visited_after_def v1)
      qed
    qed
    with two three show ?thesis by simp
  next
    case False
    with body have v1: "visited1 = visited"
      by (auto simp: loop_body_def split: if_splits jsval.splits)
    have "visited_after h fs visited ((key, v) # rest) = visited_after h fs visited rest"
      using False by (auto simp: visited_after_def dest: outside_start)
    with two three v1 show ?thesis by simp
  qed
qed

lemma visited_after_step:
  "visited_after h fs visited ((key, v) # rest) =
     visited_after h fs (snd (loop_body h fs visited key v)) rest"
  using visited_exact(2) [of h fs visited "(key, v) # rest"]
    visited_exact(2) [of h fs "snd (loop_body h fs visited key v)" rest]
  by (simp add: scrubEntries_step)

text \<open>
  Each property of the copy, exactly: it is what the loop body makes of the property
  at the same position, with the visited set as the properties before it have left it.
\<close>

lemma scrubEntries_nth:
  "i < length es \<Longrightarrow> es ! i = (key, v) \<Longrightarrow>
     fst (scrubEntries h fs visited es) ! i =
       (key, fst (loop_body h fs (visited_after h fs visited (take i es)) key v))"
proof (induction es arbitrary: visited i)
  case Nil
  then show ?case by simp
next
  case (Cons e es)
  obtain key' v' where e: "e = (key', v')" by (cases e)
  show ?case
  proof (cases i)
    case 0
    with Cons.prems e show ?thesis
      by (simp add: scrubEntries_step visited_after_Nil)
  next
    case (Suc j)
    with Cons.prems have "j < length es" "es ! j = (key, v)" by simp_all
    from Cons.IH [OF this, of "snd (loop_body h fs visited key' v')"] Suc e
    show ?thesis
      by (simp add: scrubEntries_step visited_after_step)
  qed
qed

lemma scrubObject_entry:
  assumes "a \<notin> visited" "i < length (entries h a)" "entries h a ! i = (key, v)"
  shows "\<exists>res. scrubObject h fs visited a = (Node res, visited \<union> {c. outside h fs visited a c}) \<and>
           map fst res = map fst (entries h a) \<and>
           res ! i = (key, fst (loop_body h fs
                       (visited_after h fs (insert a visited) (take i (entries h a))) key v))"
proof -
  let ?res = "fst (scrubEntries h fs (insert a visited) (entries h a))"
  have "scrubObject h fs visited a = (Node ?res, snd (scrubObject h fs visited a))"
    using scrubObject_fresh [OF assms(1), of h fs] by simp
  then have "scrubObject h fs visited a = (Node ?res, visited \<union> {c. outside h fs visited a c})"
    by (simp add: visited_exact(1))
  moreover have "map fst ?res = map fst (entries h a)" by (rule scrubEntries_keys)
  moreover note scrubEntries_nth [OF assms(2,3), of h fs "insert a visited"]
  ultimately show ?thesis by blast
qed




text \<open>
  C9. A property whose key is sensitive becomes \<open>[SCRUBBED]\<close> whatever its value is, a
  container included. The scrubber does not enter that container: every object in the
  visited set after the call was in it before, or can be reached from the scrubbed
  object along keys that are not sensitive. So what hangs only under sensitive keys is
  never visited, and no marker \<open>[Circular Reference]\<close> is made for it.
\<close>

theorem sensitive_key_drops_container:
  assumes "a \<notin> visited"
    and "i < length (entries h a)"
    and "entries h a ! i = (key, v)"
    and "sensitive fs key"
  shows "\<exists>res visited'. scrubObject h fs visited a = (Node res, visited') \<and>
           res ! i = (key, Leaf (PStr SCRUBBED)) \<and>
           visited' \<subseteq> visited \<union> {c. reach h fs a c}"
proof -
  from scrubObject_entry [OF assms(1-3), of fs] obtain res where r:
      "scrubObject h fs visited a = (Node res, visited \<union> {c. outside h fs visited a c})"
      "res ! i = (key, fst (loop_body h fs
                     (visited_after h fs (insert a visited) (take i (entries h a))) key v))"
    by blast
  from r(2) assms(4) have "res ! i = (key, Leaf (PStr SCRUBBED))"
    by (simp add: loop_body_sensitive)
  moreover from visited_reach(1) [of h fs visited a] r(1)
  have "visited \<union> {c. outside h fs visited a c} \<subseteq> visited \<union> {c. reach h fs a c}" by simp
  ultimately show ?thesis using r(1) by blast
qed

lemma secretHeap_reach: "reach secretHeap DEFAULT_SCRUB_FIELDS a c \<Longrightarrow> a = 0 \<Longrightarrow> c = 0"
proof (induction rule: reach.induct)
  case (reach_self a)
  then show ?case by simp
next
  case (reach_edge k b a c)
  have "sensitive DEFAULT_SCRUB_FIELDS ''token''" by code_simp
  with reach_edge show ?case
    by (auto simp: secretHeap_def entries_def)
qed

theorem sensitive_key_drops_container_witness:
  "0 \<notin> ({} :: addr set) \<and> 0 < length (entries secretHeap 0) \<and>
   entries secretHeap 0 ! 0 = (''token'', Ref 1) \<and>
   sensitive DEFAULT_SCRUB_FIELDS ''token'' \<and>
   (\<exists>res visited'. scrubObject secretHeap DEFAULT_SCRUB_FIELDS {} 0 = (Node res, visited') \<and>
      res ! 0 = (''token'', Leaf (PStr SCRUBBED)) \<and> 1 \<notin> visited')"
proof -
  have h1: "0 \<notin> ({} :: addr set)" by simp
  have h2: "0 < length (entries secretHeap 0)" by code_simp
  have h3: "entries secretHeap 0 ! 0 = (''token'', Ref 1)" by code_simp
  have h4: "sensitive DEFAULT_SCRUB_FIELDS ''token''" by code_simp
  from sensitive_key_drops_container [OF h1 h2 h3 h4] obtain res visited' where r:
      "scrubObject secretHeap DEFAULT_SCRUB_FIELDS {} 0 = (Node res, visited')"
      "res ! 0 = (''token'', Leaf (PStr SCRUBBED))"
      "visited' \<subseteq> {} \<union> {c. reach secretHeap DEFAULT_SCRUB_FIELDS 0 c}"
    by blast
  from r(3) secretHeap_reach [of 0] have "1 \<notin> visited'" by auto
  with r(1,2) h1 h2 h3 h4 show ?thesis by blast
qed

lemma Rollbar_new_scrubFields:
  "Rollbar_new cfg = Inr this \<Longrightarrow>
     clientScrubFields this = DEFAULT_SCRUB_FIELDS @ or_default (scrubFields cfg) []"
  by (auto simp: Rollbar_new_def split: if_splits)

text \<open>
  C2 (as amended). Let the client be built from \<open>cfg\<close>, and let the keys of the store and
  the fields of \<open>cfg\<close> be ASCII. In every object given to \<open>scrubObject\<close> with the client's
  scrub fields, the copy has the same keys, and a key that matches, letter case
  ignored, one of the built-in fields or one of the fields of \<open>cfg\<close> gets the value
  \<open>[SCRUBBED]\<close>; the fields of \<open>cfg\<close> are added to the built-in ones and replace none of
  them. Under any other key a primitive is copied unchanged, and a container is
  replaced: with the marker \<open>[Circular Reference]\<close> when it was visited before (it is the
  scrubbed object itself, or was visited before the call, or was reached from a
  property that precedes it), and with its own scrubbed copy when it was not.
\<close>

theorem scrub_sensitive_fields:
  assumes "Rollbar_new cfg = Inr this"
    and "a \<notin> visited"
    and "i < length (entries h a)"
    and "entries h a ! i = (key, v)"
    and "ascii_store h"
    and "list_all ascii (or_default (scrubFields cfg) [])"
  shows "\<exists>res visited'.
     scrubObject h (clientScrubFields this) visited a = (Node res, visited') \<and>
     map fst res = map fst (entries h a) \<and>
     res ! i =
       (key,
        if toLowerCase key \<in>
             toLowerCase ` (set DEFAULT_SCRUB_FIELDS \<union> set (or_default (scrubFields cfg) []))
        then Leaf (PStr SCRUBBED)
        else (case v of
                Prim p \<Rightarrow> Leaf p
              | Ref b \<Rightarrow>
                  (let before = visited_after h (clientScrubFields this) (insert a visited)
                                  (take i (entries h a))
                   in if b \<in> before then Leaf (PStr CIRCULAR)
                      else fst (scrubObject h (clientScrubFields this) before b))))"
proof -
  let ?fs = "clientScrubFields this"
  have fs: "sensitive ?fs key \<longleftrightarrow>
      toLowerCase key \<in>
        toLowerCase ` (set DEFAULT_SCRUB_FIELDS \<union> set (or_default (scrubFields cfg) []))"
    by (simp add: Rollbar_new_scrubFields [OF assms(1)] sensitive_def image_Un)
  from scrubObject_entry [OF assms(2-4), of ?fs] obtain res where r:
      "scrubObject h ?fs visited a = (Node res, visited \<union> {c. outside h ?fs visited a c})"
      "map fst res = map fst (entries h a)"
      "res ! i = (key, fst (loop_body h ?fs
                       (visited_after h ?fs (insert a visited) (take i (entries h a))) key v))"
    by blast
  from r(3) fs have "res ! i =
       (key,
        if toLowerCase key \<in>
             toLowerCase ` (set DEFAULT_SCRUB_FIELDS \<union> set (or_default (scrubFields cfg) []))
        then Leaf (PStr SCRUBBED)
        else (case v of
                Prim p \<Rightarrow> Leaf p
              | Ref b \<Rightarrow>
                  (let before = visited_after h ?fs (insert a visited) (take i (entries h a))
                   in if b \<in> before then Leaf (PStr CIRCULAR)
                      else fst (scrubObject h ?fs before b))))"
    by (simp add: loop_body_def Let_def split: jsval.splits)
  with r(1,2) show ?thesis by blast
qed

theorem scrub_sensitive_fields_witness:
  "Rollbar_new customConfig = Inr plainClient \<and>
   0 \<notin> ({} :: addr set) \<and> 2 < length (entries customHeap 0) \<and>
   entries customHeap 0 ! 0 = (''customSecret'', Prim (PStr ''secret'')) \<and>
   entries customHeap 0 ! 1 = (''normalField'', Prim (PStr ''value'')) \<and>
   entries customHeap 0 ! 2 = (''Password'', Prim (PStr ''pw'')) \<and>
   ascii_store customHeap \<and> list_all ascii (or_default (scrubFields customConfig) []) \<and>
   (\<exists>res visited'.
      scrubObject customHeap (clientScrubFields plainClient) {} 0 = (Node res, visited') \<and>
      res ! 0 = (''customSecret'', Leaf (PStr SCRUBBED)) \<and>
      res ! 1 = (''normalField'', Leaf (PStr ''value'')) \<and>
      res ! 2 = (''Password'', Leaf (PStr SCRUBBED)))"
proof -
  have h1: "Rollbar_new customConfig = Inr plainClient" by code_simp
  have h2: "0 \<notin> ({} :: addr set)" by simp
  have l0: "0 < length (entries customHeap 0)" and l1: "1 < length (entries customHeap 0)"
    and l2: "2 < length (entries customHeap 0)"
    by (simp_all add: customHeap_def entries_def)
  have e0: "entries customHeap 0 ! 0 = (''customSecret'', Prim (PStr ''secret''))"
    and e1: "entries customHeap 0 ! 1 = (''normalField'', Prim (PStr ''value''))"
    and e2: "entries customHeap 0 ! 2 = (''Password'', Prim (PStr ''pw''))"
    by (simp_all add: customHeap_def entries_def)
  have h5: "ascii_store customHeap" by code_simp
  have h6: "list_all ascii (or_default (scrubFields customConfig) [])" by code_simp
  have s0: "toLowerCase ''customSecret'' \<in>
      toLowerCase ` (set DEFAULT_SCRUB_FIELDS \<union> set (or_default (scrubFields customConfig) []))"
    and s1: "toLowerCase ''normalField'' \<notin>
      toLowerCase ` (set DEFAULT_SCRUB_FIELDS \<union> set (or_default (scrubFields customConfig) []))"
    and s2: "toLowerCase ''Password'' \<in>
      toLowerCase ` (set DEFAULT_SCRUB_FIELDS \<union> set (or_default (scrubFields customConfig) []))"
    by code_simp+
  from scrub_sensitive_fields [OF h1 h2 l0 e0 h5 h6] s0
    scrub_sensitive_fields [OF h1 h2 l1 e1 h5 h6] s1
    scrub_sensitive_fields [OF h1 h2 l2 e2 h5 h6] s2
  have "\<exists>res visited'.
      scrubObject customHeap (clientScrubFields plainClient) {} 0 = (Node res, visited') \<and>
      res ! 0 = (''customSecret'', Leaf (PStr SCRUBBED)) \<and>
      res ! 1 = (''normalField'', Leaf (PStr ''value'')) \<and>
      res ! 2 = (''Password'', Leaf (PStr SCRUBBED))"
    by auto
  with h1 h2 l2 e0 e1 e2 h5 h6 show ?thesis by blast
qed

text \<open>
  C2 as stated fails on \<open>nestedHeap\<close>. The keys \<open>user\<close> and \<open>self\<close> are not sensitive, and
  their values do not pass through unmodified: the first comes back with the \<open>password\<close>
  inside it scrubbed, the second as the marker \<open>[Circular Reference]\<close>.
\<close>

theorem scrub_sensitive_fields_counterexample:
  "\<not> sensitive DEFAULT_SCRUB_FIELDS ''user'' \<and>
   \<not> sensitive DEFAULT_SCRUB_FIELDS ''self'' \<and>
   entries nestedHeap 0 = [(''user'', Ref 1), (''id'', Prim (PNum 7)), (''self'', Ref 0)] \<and>
   fst (scrubObject nestedHeap DEFAULT_SCRUB_FIELDS {} 0) =
     Node [(''user'', Node [(''password'', Leaf (PStr ''[SCRUBBED]''))]),
           (''id'', Leaf (PNum 7)),
           (''self'', Leaf (PStr ''[Circular Reference]''))] \<and>
   \<not> verbatim nestedHeap (Node [(''password'', Leaf (PStr ''[SCRUBBED]''))]) (Ref 1) \<and>
   \<not> verbatim nestedHeap (Leaf (PStr ''[Circular Reference]'')) (Ref 0)"
  by code_simp

section \<open>Properties of the header scrubber\<close>

lemma includes_str_sublist: "includes_str s f \<longleftrightarrow> sublist f s"
  by (induction s) (simp_all add: sublist_Cons_right)

lemma includes_str_iff: "includes_str s f \<longleftrightarrow> (\<exists>ps ss. s = ps @ f @ ss)"
  by (simp add: includes_str_sublist sublist_def)

lemma scrubHeaders_map_of:
  assumes "distinct (map fst headers)"
  shows "map_of (scrubHeaders headers fs) name =
     (if name = ''__proto__'' then None
      else case map_of headers name of
             None \<Rightarrow> None
           | Some value \<Rightarrow>
               Some (if \<exists>f \<in> set (DEFAULT_SCRUB_HEADERS @ fs).
                          \<exists>ps ss. toLowerCase name = ps @ toLowerCase f @ ss
                     then SCRUBBED else value))"
  using fold_set_property [OF assms, of
        "\<lambda>k v. if list_ex (\<lambda>f. includes_str (toLowerCase k) (toLowerCase f))
                    (DEFAULT_SCRUB_HEADERS @ fs) then SCRUBBED else v" "[]" name]
  by (simp add: scrubHeaders_def set_property_if list_ex_iff includes_str_iff
        split: option.splits)

lemma scrubHeaders_distinct: "distinct (map fst (scrubHeaders headers fs))"
  using fold_set_property_distinct [of "[]"
        "\<lambda>k v. if list_ex (\<lambda>f. includes_str (toLowerCase k) (toLowerCase f))
                    (DEFAULT_SCRUB_HEADERS @ fs) then SCRUBBED else v" headers]
  by (simp add: scrubHeaders_def set_property_if)

lemma header_object:
  assumes "distinct (map fst headers)"
  shows "map_of (fold (\<lambda>(key, value) headers. set_property key value headers) headers []) name =
           (if name = ''__proto__'' then None else map_of headers name)"
    and "distinct (map fst (fold (\<lambda>(key, value) headers. set_property key value headers) headers []))"
  using fold_set_property [OF assms, of "\<lambda>k v. v" "[]" name]
    fold_set_property_distinct [of "[]" "\<lambda>k v. v" headers]
  by (simp_all split: option.splits)

text \<open>
  C3. Let no header name occur twice, let the names and the scrub fields be ASCII, and
  let no header be named \<open>__proto__\<close> (a name that a property assignment does not
  store). Then \<open>scrubHeaders\<close> returns an object with the same names, and under each name
  the value is \<open>[SCRUBBED]\<close> exactly when the name in lower case contains, as a
  contiguous run, the lower case of one of the five fixed substrings or of one of the
  caller's extra fields, and is the given value otherwise. \<open>buildRequestContext\<close> passes
  the scrub fields of the client as the extra fields, so whatever the client's
  configuration is, the five fixed substrings are in force. The result is read by
  name: no statement is made on the order of its properties.
\<close>

theorem scrubHeaders_masks_exactly:
  assumes "distinct (map fst headers)"
    and "''__proto__'' \<notin> fst ` set headers"
    and "list_all ascii (map fst headers)"
    and "list_all ascii extra"
    and "list_all ascii (clientScrubFields this)"
  shows "distinct (map fst (scrubHeaders headers extra)) \<and>
    map_of (scrubHeaders headers extra) name =
      (case map_of headers name of
         None \<Rightarrow> None
       | Some value \<Rightarrow>
           Some (if \<exists>f \<in> set (DEFAULT_SCRUB_HEADERS @ extra).
                      \<exists>ps ss. toLowerCase name = ps @ toLowerCase f @ ss
                 then SCRUBBED else value)) \<and>
    (\<exists>scrubbed.
       rc_headers (buildRequestContext this
          \<lparr>request_url = u, request_method = m, request_headers = headers,
           request_searchParams = q\<rparr>) = Some scrubbed \<and>
       distinct (map fst scrubbed) \<and>
       map_of scrubbed name =
         (case map_of headers name of
            None \<Rightarrow> None
          | Some value \<Rightarrow>
              Some (if \<exists>f \<in> set (DEFAULT_SCRUB_HEADERS @ clientScrubFields this).
                         \<exists>ps ss. toLowerCase name = ps @ toLowerCase f @ ss
                    then SCRUBBED else value)))"
proof -
  have absent: "map_of headers ''__proto__'' = None"
    using assms(2) by (simp add: map_of_eq_None_iff)
  have one: "map_of (scrubHeaders headers fs) name =
      (case map_of headers name of
         None \<Rightarrow> None
       | Some value \<Rightarrow>
           Some (if \<exists>f \<in> set (DEFAULT_SCRUB_HEADERS @ fs).
                      \<exists>ps ss. toLowerCase name = ps @ toLowerCase f @ ss
                 then SCRUBBED else value))" for fs
    using absent by (simp add: scrubHeaders_map_of [OF assms(1)])
  let ?object = "fold (\<lambda>(key, value) headers. set_property key value headers) headers []"
  have same: "map_of ?object name = map_of headers name"
    using absent by (simp add: header_object(1) [OF assms(1)])
  have "map_of (scrubHeaders ?object (clientScrubFields this)) name =
      (case map_of headers name of
         None \<Rightarrow> None
       | Some value \<Rightarrow>
           Some (if \<exists>f \<in> set (DEFAULT_SCRUB_HEADERS @ clientScrubFields this).
                      \<exists>ps ss. toLowerCase name = ps @ toLowerCase f @ ss
                 then SCRUBBED else value))"
    using same absent
    by (auto simp: scrubHeaders_map_of [OF header_object(2) [OF assms(1)]]
          split: option.splits)
  then show ?thesis
    by (simp add: one scrubHeaders_distinct buildRequestContext_def)
qed

theorem scrubHeaders_masks_exactly_witness:
  "distinct (map fst exampleHeaders) \<and> ''__proto__'' \<notin> fst ` set exampleHeaders \<and>
   list_all ascii (map fst exampleHeaders) \<and> list_all ascii [''trace''] \<and>
   list_all ascii (clientScrubFields plainClient) \<and>
   map_of (scrubHeaders exampleHeaders [''trace'']) ''Authorization'' = Some SCRUBBED \<and>
   map_of (scrubHeaders exampleHeaders [''trace'']) ''X-Session-Cookie-Id'' = Some SCRUBBED \<and>
   map_of (scrubHeaders exampleHeaders [''trace'']) ''x-trace'' = Some SCRUBBED \<and>
   map_of (scrubHeaders exampleHeaders [''trace'']) ''content-type'' = Some ''application/json'' \<and>
   map_of (scrubHeaders exampleHeaders [''trace'']) ''x-custom-header'' = Some ''value'' \<and>
   map_of (scrubHeaders exampleHeaders [''trace'']) ''absent'' = None"
proof -
  have h1: "distinct (map fst exampleHeaders)" by code_simp
  have h2: "''__proto__'' \<notin> fst ` set exampleHeaders" by code_simp
  have h3: "list_all ascii (map fst exampleHeaders)" by code_simp
  have h4: "list_all ascii [''trace'']" by code_simp
  have h5: "list_all ascii (clientScrubFields plainClient)" by code_simp
  have masked: "list_ex (\<lambda>f. includes_str (toLowerCase name) (toLowerCase f))
         (DEFAULT_SCRUB_HEADERS @ [''trace'']) \<longleftrightarrow>
       (\<exists>f \<in> set (DEFAULT_SCRUB_HEADERS @ [''trace'']).
          \<exists>ps ss. toLowerCase name = ps @ toLowerCase f @ ss)" for name
    by (simp add: list_ex_iff includes_str_iff)
  have m1: "list_ex (\<lambda>f. includes_str (toLowerCase ''Authorization'') (toLowerCase f))
         (DEFAULT_SCRUB_HEADERS @ [''trace''])"
    and m2: "list_ex (\<lambda>f. includes_str (toLowerCase ''X-Session-Cookie-Id'') (toLowerCase f))
         (DEFAULT_SCRUB_HEADERS @ [''trace''])"
    and m3: "list_ex (\<lambda>f. includes_str (toLowerCase ''x-trace'') (toLowerCase f))
         (DEFAULT_SCRUB_HEADERS @ [''trace''])"
    and m4: "\<not> list_ex (\<lambda>f. includes_str (toLowerCase ''content-type'') (toLowerCase f))
         (DEFAULT_SCRUB_HEADERS @ [''trace''])"
    and m5: "\<not> list_ex (\<lambda>f. includes_str (toLowerCase ''x-custom-header'') (toLowerCase f))
         (DEFAULT_SCRUB_HEADERS @ [''trace''])"
    by code_simp+
  have v1: "map_of exampleHeaders ''Authorization'' = Some ''Bearer token123''"
    and v2: "map_of exampleHeaders ''X-Session-Cookie-Id'' = Some ''abc''"
    and v3: "map_of exampleHeaders ''x-trace'' = Some ''on''"
    and v4: "map_of exampleHeaders ''content-type'' = Some ''application/json''"
    and v5: "map_of exampleHeaders ''x-custom-header'' = Some ''value''"
    and v6: "map_of exampleHeaders ''absent'' = None"
    by code_simp+
  note at = scrubHeaders_masks_exactly [OF h1 h2 h3 h4 h5, THEN conjunct2, THEN conjunct1]
  have "map_of (scrubHeaders exampleHeaders [''trace'']) ''Authorization'' = Some SCRUBBED"
    using at [of "''Authorization''"] m1 [unfolded masked] by (simp only: v1 option.case if_True)
  moreover
  have "map_of (scrubHeaders exampleHeaders [''trace'']) ''X-Session-Cookie-Id'' = Some SCRUBBED"
    using at [of "''X-Session-Cookie-Id''"] m2 [unfolded masked]
    by (simp only: v2 option.case if_True)
  moreover
  have "map_of (scrubHeaders exampleHeaders [''trace'']) ''x-trace'' = Some SCRUBBED"
    using at [of "''x-trace''"] m3 [unfolded masked] by (simp only: v3 option.case if_True)
  moreover
  have "map_of (scrubHeaders exampleHeaders [''trace'']) ''content-type'' =
      Some ''application/json''"
    using at [of "''content-type''"] m4 [unfolded masked]
    by (simp only: v4 option.case if_False)
  moreover
  have "map_of (scrubHeaders exampleHeaders [''trace'']) ''x-custom-header'' = Some ''value''"
    using at [of "''x-custom-header''"] m5 [unfolded masked]
    by (simp only: v5 option.case if_False)
  moreover
  have "map_of (scrubHeaders exampleHeaders [''trace'']) ''absent'' = None"
    using at [of "''absent''"] by (simp only: v6 option.case)
  ultimately show ?thesis using h1 h2 h3 h4 h5 by blast
qed

section \<open>Properties of the stack trace parser\<close>

lemma twoLineTrace_frames:
  "List.map_filter parseStackLine (split_lines twoLineTrace) =
     [\<lparr>filename = ''a.js'', lineno = Some 1, colno = Some 2, method_name = ''foo''\<rparr>,
      \<lparr>filename = ''b.js'', lineno = Some 3, colno = Some 4, method_name = ''(anonymous)''\<rparr>]"
  by code_simp

text \<open>
  C4. For every error whose stack text is the two-line trace of the spec's example,
  \<open>parseStackFrames\<close> returns two frames, in the reverse of the order of the lines, and
  the last one has method \<open>foo\<close>, filename \<open>a.js\<close>, line 1 and column 2.
\<close>

theorem parseStackFrames_two_line_trace:
  "parseStackFrames (error\<lparr>error_stack := Some twoLineTrace\<rparr>) =
     [\<lparr>filename = ''b.js'', lineno = Some 3, colno = Some 4, method_name = ''(anonymous)''\<rparr>,
      \<lparr>filename = ''a.js'', lineno = Some 1, colno = Some 2, method_name = ''foo''\<rparr>] \<and>
   length (parseStackFrames (error\<lparr>error_stack := Some twoLineTrace\<rparr>)) = 2 \<and>
   last (parseStackFrames (error\<lparr>error_stack := Some twoLineTrace\<rparr>)) =
     \<lparr>filename = ''a.js'', lineno = Some 1, colno = Some 2, method_name = ''foo''\<rparr>"
proof -
  have "twoLineTrace \<noteq> []" by (simp add: twoLineTrace_def)
  then show ?thesis
    by (simp add: parseStackFrames_def twoLineTrace_frames)
qed

text \<open>
  What holds of the summary line and of blank lines: a line that is blank after
  trimming gives no frame, and so does a line that starts with \<open>Error:\<close> or is \<open>Error\<close>.
\<close>

lemma parseStackLine_blank: "trim line = [] \<Longrightarrow> parseStackLine line = None"
  by (simp add: parseStackLine_def)

lemma parseStackLine_Error_summary:
  "prefix ''Error:'' (trim line) \<or> trim line = ''Error'' \<Longrightarrow> parseStackLine line = None"
  by (auto simp: parseStackLine_def)

text \<open>
  C5, at the failing input. The test of the summary line is written with the fixed
  text \<open>Error:\<close>, not with the name of the error. The summary line of a \<open>TypeError\<close>
  does not start with \<open>Error:\<close>, matches none of the three patterns, and comes back as
  an \<open>(unparsed)\<close> frame, the last of the result.
\<close>

theorem parseStackFrames_TypeError_summary_kept:
  "parseStackFrames typeError =
     [\<lparr>filename = ''a.js'', lineno = Some 1, colno = Some 2, method_name = ''foo''\<rparr>,
      \<lparr>filename = ''(unparsed)'', lineno = None, colno = None,
       method_name = ''TypeError: boom''\<rparr>]"
  by code_simp

section \<open>Properties of the client\<close>

text \<open>
  C7. With a missing or an empty access token the constructor throws and there is no
  instance, so there is nothing to call a report method on. With any other access
  token it returns an instance that holds the token.
\<close>

theorem constructor_requires_accessToken:
  "(case accessToken cfg of
      None \<Rightarrow> Rollbar_new cfg = Inl ''Rollbar accessToken is required''
    | Some token \<Rightarrow>
        if token = [] then Rollbar_new cfg = Inl ''Rollbar accessToken is required''
        else \<exists>this. Rollbar_new cfg = Inr this \<and> accessToken (config this) = Some token)"
  by (simp add: Rollbar_new_def truthy_def split: option.splits)

theorem constructor_requires_accessToken_witness:
  "Rollbar_new (customConfig\<lparr>accessToken := Some []\<rparr>) = Inl ''Rollbar accessToken is required'' \<and>
   Rollbar_new (customConfig\<lparr>accessToken := None\<rparr>) = Inl ''Rollbar accessToken is required'' \<and>
   (\<exists>this. Rollbar_new customConfig = Inr this \<and> accessToken (config this) = Some ''test-token'')"
  using constructor_requires_accessToken [of "customConfig\<lparr>accessToken := Some []\<rparr>"]
    constructor_requires_accessToken [of "customConfig\<lparr>accessToken := None\<rparr>"]
    constructor_requires_accessToken [of customConfig]
  by (simp add: customConfig_def)

subsection \<open>Sending\<close>

text \<open>
  What holds of \<open>send\<close>. It returns, and does not throw, whenever the client is not
  verbose or the payload can be serialized. When \<open>fetch\<close> rejects it logs the failure and
  returns \<open>null\<close>. When the service answers it returns the acknowledgement, and logs the
  service's message when the error code is not zero.
\<close>

lemma send_returns:
  assumes "\<not> verbose (config this) \<or> serializable p"
  shows "\<exists>result. fst (send rt this p) = Inr result"
  using assms
  by (auto simp: send_def JSON_stringify_def JSON_stringify_indented_def
        split: sum.splits prod.splits)

lemma send_transport_failure:
  assumes "serializable p"
    and "rt_fetch rt ROLLBAR_API_URL (rt_render rt p) = Rejected e"
  shows "fst (send rt this p) = Inr None \<and>
         ConsoleError ''[Rollbar] Failed to send:'' (LogThrown e) \<in> set (snd (send rt this p))"
  using assms
  by (auto simp: send_def try_send_def JSON_stringify_def JSON_stringify_indented_def
        split: sum.splits prod.splits)

lemma send_acknowledged:
  assumes "serializable p"
    and "rt_fetch rt ROLLBAR_API_URL (rt_render rt p) = Responded (Inr ack)"
  shows "fst (send rt this p) = Inr (Some ack) \<and>
         (ack_err ack \<noteq> 0 \<longrightarrow>
            ConsoleError ''[Rollbar] Error response:'' (LogMessage (ack_message ack))
              \<in> set (snd (send rt this p)))"
  using assms
  by (auto simp: send_def try_send_def JSON_stringify_def JSON_stringify_indented_def
        split: sum.splits prod.splits)

lemma bigint_custom:
  "scrubbed_properties bigintHeap (DEFAULT_SCRUB_FIELDS @ [''customSecret'']) 0 =
     [(''n'', Leaf (PBigInt 10))]"
  by code_simp

lemma bigint_merged:
  "assign ''n'' (Leaf (PBigInt 10)) [] = [(''n'', Leaf (PBigInt 10))]"
  "assign ''n'' (Leaf (PBigInt 10)) [(''body'', Leaf (PStr ''m''))] =
     [(''body'', Leaf (PStr ''m'')), (''n'', Leaf (PBigInt 10))]"
  by code_simp+

text \<open>
  C6, at the failing input. The client is verbose and the per-call custom data holds a
  \<open>BigInt\<close>, which the scrubber copies. \<open>send\<close> serializes the payload for the verbose log
  before it enters its \<open>try\<close> block, so the \<open>TypeError\<close> of \<open>JSON.stringify\<close> leaves \<open>send\<close>
  and the report method; nothing is logged and nothing is sent.
\<close>

theorem send_raises_when_verbose:
  "Rollbar_new (customConfig\<lparr>verbose := True\<rparr>) = Inr verboseClient \<and>
   Rollbar_info rt bigintHeap verboseClient ''m'' (Some bigintContext) =
     (Inl (ErrorObject (new_Error rt ''TypeError'' ''Do not know how to serialize a BigInt'')), [])"
  by (simp add: Rollbar_new_def customConfig_def truthy_def or_default_def verboseClient_def
      Rollbar_info_def logMessage_def send_def JSON_stringify_indented_def serializable_def
      buildPayload_def add_context_def bigintContext_def no_context_def bigint_custom
      bigint_merged spread_def Let_def)

subsection \<open>The handler wrapper\<close>

text \<open>The events of a report are those issued, then those deferred.\<close>

lemma issued_deferred: "issued es @ deferred es = es"
  by (induction es) (auto split: event.splits)

text \<open>
  When \<open>String(err)\<close> throws, the wrapped handler throws the same and no report is made.
\<close>

lemma wrap_conversion_throws:
  "handler request = Inl (ThrownOther i (Inl e)) \<Longrightarrow>
     wrap rt h this handler options request hasWaitUntil = (Inl e, [], [])"
  by (simp add: wrap_def as_Error_def)

text \<open>
  C8 (as amended). Let the wrapped handler have the rethrow option and let the handler
  throw \<open>err\<close>. Let \<open>error\<close> be what line 234 makes of \<open>err\<close>: \<open>err\<close> itself, the same object
  and no copy, when \<open>err\<close> is an \<open>Error\<close> object, and otherwise a new \<open>Error\<close> whose message is
  \<open>String(err)\<close>, provided \<open>String(err)\<close> returns. Let the report of \<open>error\<close> be handed to
  \<open>waitUntil\<close>, or be awaited and return. Then the wrapped handler throws \<open>error\<close>. With
  \<open>waitUntil\<close> it has, by then, issued the report (the report has run up to its call of
  \<open>fetch\<close>, or to its end if it does not get there) and handed it to \<open>waitUntil\<close>, and the
  rest of the report comes after the throw; without \<open>waitUntil\<close> the whole report comes
  before the throw. The keys of the store, the scrub fields of the client and the
  header names are ASCII.
\<close>

theorem wrap_rethrow:
  assumes "wo_rethrow options"
    and "handler request = Inl err"
    and "as_Error rt err = Inr error"
    and "Rollbar_error rt h this error (Some (report_context this options request)) =
           (reported, did)"
    and "hasWaitUntil \<or> (\<exists>ack. reported = Inr ack)"
    and "ascii_store h"
    and "list_all ascii (clientScrubFields this)"
    and "list_all ascii (map fst (request_headers request))"
  shows "wrap rt h this handler options request hasWaitUntil =
           (Inl (ErrorObject error),
            (if hasWaitUntil then issued did @ [WaitUntil] else did),
            (if hasWaitUntil then deferred did else [])) \<and>
         (case err of
            ErrorObject e \<Rightarrow> error = e
          | ThrownString s \<Rightarrow> error = new_Error rt ''Error'' s
          | ThrownOther i out \<Rightarrow> (\<exists>s. out = Inr s \<and> error = new_Error rt ''Error'' s))"
proof -
  from assms(1-5)
  have "wrap rt h this handler options request hasWaitUntil =
           (Inl (ErrorObject error),
            (if hasWaitUntil then issued did @ [WaitUntil] else did),
            (if hasWaitUntil then deferred did else []))"
    by (auto simp: wrap_def after_report_def Let_def)
  moreover from assms(3)
  have "case err of
            ErrorObject e \<Rightarrow> error = e
          | ThrownString s \<Rightarrow> error = new_Error rt ''Error'' s
          | ThrownOther i out \<Rightarrow> (\<exists>s. out = Inr s \<and> error = new_Error rt ''Error'' s)"
    by (auto simp: as_Error_def split: thrown.splits sum.splits)
  ultimately show ?thesis by simp
qed

theorem wrap_rethrow_witness:
  "wo_rethrow rethrowOptions \<and>
   throwsError exampleRequest = Inl (ErrorObject rethrowMe) \<and>
   as_Error quietRuntime (ErrorObject rethrowMe) = Inr rethrowMe \<and>
   Rollbar_error quietRuntime [] verboseClient rethrowMe
      (Some (report_context verboseClient rethrowOptions exampleRequest)) =
     (Inr (Some ok_ack),
      [ConsoleLog ''[Rollbar] Sending payload:'' (LogText ''{ }''),
       FetchCall ROLLBAR_API_URL ''{}'',
       ConsoleLog ''[Rollbar] Response:'' (LogResponse ok_ack)]) \<and>
   ascii_store [] \<and> list_all ascii (clientScrubFields verboseClient) \<and>
   list_all ascii (map fst (request_headers exampleRequest)) \<and>
   wrap quietRuntime [] verboseClient throwsError rethrowOptions exampleRequest True =
     (Inl (ErrorObject rethrowMe),
      [ConsoleLog ''[Rollbar] Sending payload:'' (LogText ''{ }''),
       FetchCall ROLLBAR_API_URL ''{}'', WaitUntil],
      [ConsoleLog ''[Rollbar] Response:'' (LogResponse ok_ack)]) \<and>
   wrap quietRuntime [] verboseClient throwsError rethrowOptions exampleRequest False =
     (Inl (ErrorObject rethrowMe),
      [ConsoleLog ''[Rollbar] Sending payload:'' (LogText ''{ }''),
       FetchCall ROLLBAR_API_URL ''{}'',
       ConsoleLog ''[Rollbar] Response:'' (LogResponse ok_ack)],
      [])"
proof -
  let ?did = "[ConsoleLog ''[Rollbar] Sending payload:'' (LogText ''{ }''),
       FetchCall ROLLBAR_API_URL ''{}'',
       ConsoleLog ''[Rollbar] Response:'' (LogResponse ok_ack)]"
  have h1: "wo_rethrow rethrowOptions" by (simp add: rethrowOptions_def)
  have h2: "throwsError exampleRequest = Inl (ErrorObject rethrowMe)"
    by (simp add: throwsError_def)
  have h3: "as_Error quietRuntime (ErrorObject rethrowMe) = Inr rethrowMe"
    by (simp add: as_Error_def)
  have h4: "Rollbar_error quietRuntime [] verboseClient rethrowMe
      (Some (report_context verboseClient rethrowOptions exampleRequest)) =
     (Inr (Some ok_ack), ?did)"
    by code_simp
  have h6: "ascii_store []" by code_simp
  have h7: "list_all ascii (clientScrubFields verboseClient)" by code_simp
  have h8: "list_all ascii (map fst (request_headers exampleRequest))" by code_simp
  have split: "issued ?did @ [WaitUntil] =
      [ConsoleLog ''[Rollbar] Sending payload:'' (LogText ''{ }''),
       FetchCall ROLLBAR_API_URL ''{}'', WaitUntil]"
    "deferred ?did = [ConsoleLog ''[Rollbar] Response:'' (LogResponse ok_ack)]"
    by simp_all
  have with_waitUntil: "True \<or> (\<exists>ack. Inr (Some ok_ack) = (Inr ack :: thrown + RollbarResponse option))"
    by simp
  have awaited: "False \<or> (\<exists>ack. Inr (Some ok_ack) = (Inr ack :: thrown + RollbarResponse option))"
    by simp
  from wrap_rethrow [where handler = throwsError and request = exampleRequest
      and hasWaitUntil = True, OF h1 h2 h3 h4 with_waitUntil h6 h7 h8]
  have one: "wrap quietRuntime [] verboseClient throwsError rethrowOptions exampleRequest True =
     (Inl (ErrorObject rethrowMe),
      [ConsoleLog ''[Rollbar] Sending payload:'' (LogText ''{ }''),
       FetchCall ROLLBAR_API_URL ''{}'', WaitUntil],
      [ConsoleLog ''[Rollbar] Response:'' (LogResponse ok_ack)])"
    by (simp only: split if_True)
  from wrap_rethrow [where handler = throwsError and request = exampleRequest
      and hasWaitUntil = False, OF h1 h2 h3 h4 awaited h6 h7 h8]
  have two: "wrap quietRuntime [] verboseClient throwsError rethrowOptions exampleRequest False =
     (Inl (ErrorObject rethrowMe), ?did, [])"
    by (simp only: if_False)
  from h1 h2 h3 h4 h6 h7 h8 one two show ?thesis by blast
qed

text \<open>
  C8 as stated fails when the handler throws a string: what the wrapped handler throws
  is not the string but a new \<open>Error\<close> that wraps it.
\<close>

theorem wrap_rethrow_counterexample:
  "wo_rethrow rethrowOptions \<and>
   throwsString exampleRequest = Inl (ThrownString ''String error'') \<and>
   fst (wrap quietRuntime [] plainClient throwsString rethrowOptions exampleRequest False) =
     Inl (ErrorObject \<lparr>error_ident = 1, error_name = ''Error'',
                       error_message = ''String error'', error_stack = None\<rparr>) \<and>
   fst (wrap quietRuntime [] plainClient throwsString rethrowOptions exampleRequest False) \<noteq>
     Inl (ThrownString ''String error'')"
proof -
  have "fst (wrap quietRuntime [] plainClient throwsString rethrowOptions exampleRequest False) =
     Inl (ErrorObject \<lparr>error_ident = 1, error_name = ''Error'',
                       error_message = ''String error'', error_stack = None\<rparr>)"
    by code_simp
  then show ?thesis
    by (simp add: rethrowOptions_def throwsString_def)
qed

subsection \<open>Binding a person\<close>

lemma map_of_spread_absent:
  "map_of ys k = None \<Longrightarrow> map_of (spread xs ys) k = map_of xs k"
proof (induction ys arbitrary: xs)
  case Nil
  show ?case by (simp add: spread_def)
next
  case (Cons y ys)
  obtain k' v where y: "y = (k', v)" by (cases y)
  with Cons.prems have "k \<noteq> k'" "map_of ys k = None" by (auto split: if_splits)
  with Cons.IH [of "assign k' v xs"] y show ?case
    by (simp add: spread_def map_of_assign_other)
qed

lemma map_of_spread_empty: "distinct (map fst ys) \<Longrightarrow> map_of (spread [] ys) k = map_of ys k"
proof -
  have "distinct (map fst ys) \<Longrightarrow> map_of (spread xs ys) k =
      (case map_of ys k of None \<Rightarrow> map_of xs k | Some v \<Rightarrow> Some v)" for xs
  proof (induction ys arbitrary: xs)
    case Nil
    show ?case by (simp add: spread_def)
  next
    case (Cons y ys)
    obtain k' v where y: "y = (k', v)" by (cases y)
    from Cons.prems y have d: "distinct (map fst ys)" and new: "map_of ys k' = None"
      by (auto simp: map_of_eq_None_iff)
    from Cons.IH [OF d, of "assign k' v xs"] y new show ?case
      by (auto simp: spread_def map_of_assign split: option.splits)
  qed
  then show "distinct (map fst ys) \<Longrightarrow> map_of (spread [] ys) k = map_of ys k"
    by (simp split: option.splits)
qed

lemma takeWhile_shorter: "\<exists>e \<in> set es. \<not> P e \<Longrightarrow> length (takeWhile P es) < length es"
  by (induction es) auto

text \<open>
  The copy read by key: under a key of the object it holds what the loop body makes of
  the property, with the visited set as the properties before that key have left it.
\<close>

lemma scrubEntries_map_of:
  assumes "distinct (map fst es)" and "map_of es k = Some v"
  shows "map_of (fst (scrubEntries h fs visited es)) k =
     Some (fst (loop_body h fs
                  (visited_after h fs visited (takeWhile (\<lambda>e. fst e \<noteq> k) es)) k v))"
proof -
  let ?i = "length (takeWhile (\<lambda>e. fst e \<noteq> k) es)"
  let ?res = "fst (scrubEntries h fs visited es)"
  from assms(2) have mem: "(k, v) \<in> set es" by (rule map_of_SomeD)
  then have "\<exists>e \<in> set es. \<not> fst e \<noteq> k" by force
  then have i: "?i < length es" by (rule takeWhile_shorter)
  then have "\<not> fst (es ! ?i) \<noteq> k" by (rule nth_length_takeWhile)
  then obtain v' where v': "es ! ?i = (k, v')" by (cases "es ! ?i") auto
  with i have "(k, v') \<in> set es" by (metis nth_mem)
  with assms(1) have "v' = v" using mem by (rule eq_key_imp_eq_value)
  with v' have at: "es ! ?i = (k, v)" by simp
  have take: "take ?i es = takeWhile (\<lambda>e. fst e \<noteq> k) es"
    by (rule takeWhile_eq_take [symmetric])
  from scrubEntries_nth [OF i at, of h fs visited]
  have nth: "?res ! ?i = (k, fst (loop_body h fs
                  (visited_after h fs visited (takeWhile (\<lambda>e. fst e \<noteq> k) es)) k v))"
    by (simp only: take)
  have keys: "map fst ?res = map fst es" by (rule scrubEntries_keys)
  then have "length ?res = length es" by (metis length_map)
  with i nth have "(k, fst (loop_body h fs
                  (visited_after h fs visited (takeWhile (\<lambda>e. fst e \<noteq> k) es)) k v)) \<in> set ?res"
    by (metis nth_mem)
  moreover from keys assms(1) have "distinct (map fst ?res)" by simp
  ultimately show ?thesis
    by (rule map_of_is_SomeI [rotated])
qed

lemma scrubEntries_map_of_None:
  "k \<notin> fst ` set es \<Longrightarrow> map_of (fst (scrubEntries h fs visited es)) k = None"
  using scrubEntries_keys [of h fs visited es]
  by (metis map_of_eq_None_iff set_map)

lemma scrubbed_properties_eq:
  "scrubbed_properties h fs a = fst (scrubEntries h fs {a} (entries h a))"
  by (simp add: scrubbed_properties_def scrubObject_fresh)

lemma add_context_person:
  "data_person (add_context h this ctx d) =
     (case ctx_person ctx of None \<Rightarrow> data_person d | Some p \<Rightarrow> Some p)"
  by (simp add: add_context_def Let_def split: option.splits)

lemma add_context_custom:
  "data_custom (add_context h this ctx d) =
     (case ctx_custom ctx of
        None \<Rightarrow> data_custom d
      | Some c \<Rightarrow>
          Some (spread (or_default (data_custom d) [])
                  (scrubbed_properties h (clientScrubFields this) c)))"
  by (simp add: add_context_def Let_def split: option.splits)

lemma buildPayload_person:
  "data_person (data (buildPayload h now this level given)) =
     (case given of None \<Rightarrow> None | Some ctx \<Rightarrow> ctx_person ctx)"
  by (simp add: buildPayload_def add_context_person Let_def split: option.splits)

lemma buildPayload_custom:
  "data_custom (data (buildPayload h now this level given)) =
     (let base = (case payload (config this) of
                    None \<Rightarrow> None
                  | Some a \<Rightarrow>
                      Some (spread [] (scrubbed_properties h (clientScrubFields this) a)))
      in case given of
           None \<Rightarrow> base
         | Some ctx \<Rightarrow>
             (case ctx_custom ctx of
                None \<Rightarrow> base
              | Some c \<Rightarrow>
                  Some (spread (or_default base [])
                          (scrubbed_properties h (clientScrubFields this) c))))"
  by (simp add: buildPayload_def add_context_custom Let_def or_default_def split: option.splits)

lemma Rollbar_new_Inr:
  "Rollbar_new cfg = Inr this \<Longrightarrow>
     truthy (accessToken cfg) \<and>
     this = \<lparr>config = cfg\<lparr>environment := Some (or_default (environment cfg) ''production'')\<rparr>,
             clientScrubFields = DEFAULT_SCRUB_FIELDS @ or_default (scrubFields cfg) []\<rparr>"
  by (auto simp: Rollbar_new_def split: if_splits)

lemma withPerson_derived:
  assumes "Rollbar_new cfg = Inr parent"
  shows "withPerson h parent person =
     (Inr \<lparr>config = (config parent)\<lparr>payload := Some (length h)\<rparr>,
            clientScrubFields = clientScrubFields parent\<rparr>,
      h @ [assign ''person'' (Ref person)
             (case payload cfg of None \<Rightarrow> [] | Some a \<Rightarrow> entries h a)])"
  using Rollbar_new_Inr [OF assms]
  by (simp add: withPerson_def Rollbar_new_def Let_def or_default_def)

lemma person_no_index: "\<not> is_array_index ''person''"
  by code_simp

text \<open>
  C10 (as amended). For a client built by the constructor, \<open>withPerson\<close> returns a new
  client. Its configuration is the parent's with a new payload object, its scrub fields
  are the parent's, and no object of the store is changed: the new payload object is
  added to it. In every payload built by the new client, \<open>data.person\<close> is the person of
  the per-call context, and absent when there is none. Unless the per-call custom data
  has a \<open>person\<close> key of its own, \<open>data.custom.person\<close> is what the scrubber makes of the
  bound person when it comes to the key \<open>person\<close> of the new payload object: the scrubbed
  copy of the person object; or \<open>[SCRUBBED]\<close> if \<open>person\<close> is a scrub field of the client;
  or the marker \<open>[Circular Reference]\<close> if the person object has been visited by then,
  from one of the inherited properties that precede \<open>person\<close>. (An object of the store
  has no key twice; this is asked of the parent's payload object. The keys of the
  store and the scrub fields of the configuration are ASCII.)
\<close>

theorem withPerson_custom_person:
  assumes "Rollbar_new cfg = Inr parent"
    and "case payload cfg of None \<Rightarrow> True | Some a \<Rightarrow> distinct (map fst (entries h a))"
    and "withPerson h parent person = (made, h')"
    and "ascii_store h"
    and "list_all ascii (or_default (scrubFields cfg) [])"
  shows "\<exists>derived. made = Inr derived \<and>
     config derived = (config parent)\<lparr>payload := Some (length h)\<rparr> \<and>
     clientScrubFields derived = clientScrubFields parent \<and>
     take (length h) h' = h \<and>
     (\<forall>now level given.
        data_person (data (buildPayload h' now derived level given)) =
          (case given of None \<Rightarrow> None | Some ctx \<Rightarrow> ctx_person ctx) \<and>
        ((case given of
            None \<Rightarrow> True
          | Some ctx \<Rightarrow>
              (case ctx_custom ctx of
                 None \<Rightarrow> True
               | Some c \<Rightarrow> ''person'' \<notin> fst ` set (entries h' c))) \<longrightarrow>
         (\<exists>custom.
            data_custom (data (buildPayload h' now derived level given)) = Some custom \<and>
            map_of custom ''person'' =
              Some (let before =
                          visited_after h' (clientScrubFields derived) {length h}
                            (takeWhile (\<lambda>e. fst e \<noteq> ''person'')
                               (case payload cfg of None \<Rightarrow> [] | Some a \<Rightarrow> entries h a))
                    in if sensitive (clientScrubFields derived) ''person''
                       then Leaf (PStr SCRUBBED)
                       else if person \<in> before then Leaf (PStr CIRCULAR)
                       else fst (scrubObject h' (clientScrubFields derived) before person)))))"
proof -
  define inherited where
    "inherited = (case payload cfg of None \<Rightarrow> [] | Some a \<Rightarrow> entries h a)"
  define made_object where "made_object = assign ''person'' (Ref person) inherited"
  define derived where
    "derived = \<lparr>config = (config parent)\<lparr>payload := Some (length h)\<rparr>,
                 clientScrubFields = clientScrubFields parent\<rparr>"
  let ?fs = "clientScrubFields derived"
  define before where
    "before = visited_after h' ?fs {length h} (takeWhile (\<lambda>e. fst e \<noteq> ''person'') inherited)"
  define bound where
    "bound = (if sensitive ?fs ''person'' then Leaf (PStr SCRUBBED)
              else if person \<in> before then Leaf (PStr CIRCULAR)
              else fst (scrubObject h' ?fs before person))"
  from withPerson_derived [OF assms(1), of h person] assms(3)
  have made: "made = Inr derived" and h': "h' = h @ [made_object]"
    by (simp_all add: derived_def made_object_def inherited_def)
  have at: "entries h' (length h) = made_object"
    by (simp add: h' entries_def)
  from assms(2) have "distinct (map fst inherited)"
    by (simp add: inherited_def split: option.splits)
  then have distinct: "distinct (map fst made_object)"
    by (simp add: made_object_def distinct_assign)
  define props where "props = scrubbed_properties h' ?fs (length h)"
  have props: "props = fst (scrubEntries h' ?fs {length h} made_object)"
    by (simp add: props_def scrubbed_properties_eq at)
  have "map_of made_object ''person'' = Some (Ref person)"
    by (simp add: made_object_def map_of_assign_same)
  from scrubEntries_map_of [OF distinct this, of h' ?fs "{length h}"]
  have "map_of props ''person'' =
      Some (fst (loop_body h' ?fs before ''person'' (Ref person)))"
    by (simp add: props before_def made_object_def before_assign [OF person_no_index])
  then have bound: "map_of props ''person'' = Some bound"
    by (simp add: loop_body_def bound_def)
  have "distinct (map fst props)"
    by (simp add: props scrubEntries_keys distinct)
  then have base: "map_of (spread [] props) k = map_of props k" for k
    by (rule map_of_spread_empty)
  have pay: "payload (config derived) = Some (length h)" by (simp add: derived_def)
  have custom: "\<exists>custom.
      data_custom (data (buildPayload h' now derived level given)) = Some custom \<and>
      map_of custom ''person'' = map_of props ''person''"
    if ok: "case given of
            None \<Rightarrow> True
          | Some ctx \<Rightarrow>
              (case ctx_custom ctx of
                 None \<Rightarrow> True
               | Some c \<Rightarrow> ''person'' \<notin> fst ` set (entries h' c))"
    for now level given
  proof (cases given)
    case None
    then show ?thesis
      by (simp add: buildPayload_custom pay props_def [symmetric] base)
  next
    case (Some ctx)
    show ?thesis
    proof (cases "ctx_custom ctx")
      case None
      with Some show ?thesis
        by (simp add: buildPayload_custom pay props_def [symmetric] base)
    next
      case inner: (Some c)
      with ok Some have "''person'' \<notin> fst ` set (entries h' c)" by simp
      then have "map_of (scrubbed_properties h' ?fs c) ''person'' = None"
        by (simp add: scrubbed_properties_eq scrubEntries_map_of_None)
      then have "map_of (spread (spread [] props) (scrubbed_properties h' ?fs c)) ''person'' =
          map_of (spread [] props) ''person''"
        by (rule map_of_spread_absent)
      with Some inner show ?thesis
        by (simp add: buildPayload_custom pay props_def [symmetric] base or_default_def)
    qed
  qed
  have reports: "\<forall>now level given.
        data_person (data (buildPayload h' now derived level given)) =
          (case given of None \<Rightarrow> None | Some ctx \<Rightarrow> ctx_person ctx) \<and>
        ((case given of
            None \<Rightarrow> True
          | Some ctx \<Rightarrow>
              (case ctx_custom ctx of
                 None \<Rightarrow> True
               | Some c \<Rightarrow> ''person'' \<notin> fst ` set (entries h' c))) \<longrightarrow>
         (\<exists>custom.
            data_custom (data (buildPayload h' now derived level given)) = Some custom \<and>
            map_of custom ''person'' = Some bound))"
  proof (intro allI conjI impI)
    fix now level given
    show "data_person (data (buildPayload h' now derived level given)) =
          (case given of None \<Rightarrow> None | Some ctx \<Rightarrow> ctx_person ctx)"
      by (rule buildPayload_person)
  next
    fix now :: nat and level :: LogLevel and given :: "ReportContext option"
    assume "case given of
            None \<Rightarrow> True
          | Some ctx \<Rightarrow>
              (case ctx_custom ctx of
                 None \<Rightarrow> True
               | Some c \<Rightarrow> ''person'' \<notin> fst ` set (entries h' c))"
    then have "\<exists>custom.
        data_custom (data (buildPayload h' now derived level given)) = Some custom \<and>
        map_of custom ''person'' = map_of props ''person''"
      by (rule custom)
    with bound show "\<exists>custom.
            data_custom (data (buildPayload h' now derived level given)) = Some custom \<and>
            map_of custom ''person'' = Some bound"
      by auto
  qed
  have "take (length h) h' = h" by (simp add: h')
  moreover have "config derived = (config parent)\<lparr>payload := Some (length h)\<rparr>"
    and "clientScrubFields derived = clientScrubFields parent"
    by (simp_all add: derived_def)
  ultimately show ?thesis
    using made reports
    unfolding bound_def before_def inherited_def Let_def by blast
qed

theorem withPerson_custom_person_witness:
  "Rollbar_new customConfig = Inr plainClient \<and>
   withPerson personHeap plainClient 0 = (Inr derivedClient, derivedHeap) \<and>
   ascii_store personHeap \<and> list_all ascii (or_default (scrubFields customConfig) []) \<and>
   data_person (data (buildPayload derivedHeap 0 derivedClient LevelInfo None)) = None \<and>
   (\<exists>custom.
      data_custom (data (buildPayload derivedHeap 0 derivedClient LevelInfo None)) = Some custom \<and>
      map_of custom ''person'' =
        Some (Node [(''id'', Leaf (PStr ''user-456'')),
                    (''username'', Leaf (PStr ''johndoe''))]))"
proof -
  have h1: "Rollbar_new customConfig = Inr plainClient" by code_simp
  have h2: "case payload customConfig of
              None \<Rightarrow> True
            | Some a \<Rightarrow> distinct (map fst (entries personHeap a))"
    by (simp add: customConfig_def)
  have h3: "withPerson personHeap plainClient 0 = (Inr derivedClient, derivedHeap)"
    by code_simp
  have h4: "ascii_store personHeap" by code_simp
  have h5: "list_all ascii (or_default (scrubFields customConfig) [])" by code_simp
  have none: "payload customConfig = None" by (simp add: customConfig_def)
  have len: "length personHeap = 2" by (simp add: personHeap_def)
  have plain: "\<not> sensitive (clientScrubFields derivedClient) ''person''" by code_simp
  have copy: "fst (scrubObject derivedHeap (clientScrubFields derivedClient) {2} 0) =
      Node [(''id'', Leaf (PStr ''user-456'')), (''username'', Leaf (PStr ''johndoe''))]"
    by code_simp
  from withPerson_custom_person [OF h1 h2 h3 h4 h5] obtain derived where
      d: "Inr derivedClient = (Inr derived :: string + Rollbar)"
      and reports: "\<forall>now level given.
        data_person (data (buildPayload derivedHeap now derived level given)) =
          (case given of None \<Rightarrow> None | Some ctx \<Rightarrow> ctx_person ctx) \<and>
        ((case given of
            None \<Rightarrow> True
          | Some ctx \<Rightarrow>
              (case ctx_custom ctx of
                 None \<Rightarrow> True
               | Some c \<Rightarrow> ''person'' \<notin> fst ` set (entries derivedHeap c))) \<longrightarrow>
         (\<exists>custom.
            data_custom (data (buildPayload derivedHeap now derived level given)) = Some custom \<and>
            map_of custom ''person'' =
              Some (let before =
                          visited_after derivedHeap (clientScrubFields derived) {length personHeap}
                            (takeWhile (\<lambda>e. fst e \<noteq> ''person'')
                               (case payload customConfig of
                                  None \<Rightarrow> []
                                | Some a \<Rightarrow> entries personHeap a))
                    in if sensitive (clientScrubFields derived) ''person''
                       then Leaf (PStr SCRUBBED)
                       else if 0 \<in> before then Leaf (PStr CIRCULAR)
                       else fst (scrubObject derivedHeap (clientScrubFields derived) before 0))))"
    by blast
  from d have same: "derived = derivedClient" by simp
  from reports [rule_format, of 0 LevelInfo None]
  have "data_person (data (buildPayload derivedHeap 0 derivedClient LevelInfo None)) = None \<and>
   (\<exists>custom.
      data_custom (data (buildPayload derivedHeap 0 derivedClient LevelInfo None)) = Some custom \<and>
      map_of custom ''person'' =
        Some (Node [(''id'', Leaf (PStr ''user-456'')),
                    (''username'', Leaf (PStr ''johndoe''))]))"
    by (simp add: same none len visited_after_Nil plain copy)
  with h1 h3 h4 h5 show ?thesis by simp
qed

text \<open>
  C10 as stated fails when the per-call custom data has a \<open>person\<close> key: it is merged
  after the payload of the configuration and replaces the bound person, which is then
  nowhere in the payload.
\<close>

theorem withPerson_custom_person_counterexample:
  "withPerson personHeap plainClient 0 = (Inr derivedClient, derivedHeap) \<and>
   entries derivedHeap 2 = [(''person'', Ref 0)] \<and>
   ctx_custom overrideContext = Some 1 \<and>
   entries derivedHeap 1 = [(''person'', Prim (PStr ''override''))] \<and>
   data_custom (data (buildPayload derivedHeap 0 derivedClient LevelInfo (Some overrideContext))) =
     Some [(''person'', Leaf (PStr ''override''))] \<and>
   data_person (data (buildPayload derivedHeap 0 derivedClient LevelInfo (Some overrideContext))) =
     None"
  by code_simp

end
